theory Spec2Isabelle
  imports Complex_Main "HOL-Library.Multiset" "HOL-Library.AList"
begin

section \<open>Strings\<close>

text \<open>
  A Python \<open>str\<close> is modelled as a \<open>string\<close> whose characters are the code points
  below 256 (the Latin-1 range). On that range the three \<open>str\<close> methods used by the
  program are written out below exactly: \<open>isspace\<close> is the set of code points that
  \<open>str.strip()\<close> and \<open>str.split()\<close> treat as whitespace, and \<open>lower_char\<close> is the
  case mapping that \<open>str.lower()\<close> applies to one code point.
\<close>

definition isspace :: "char \<Rightarrow> bool" where
  "isspace c = (let n = (of_char c :: nat)
                in (9 \<le> n \<and> n \<le> 13) \<or> (28 \<le> n \<and> n \<le> 32) \<or> n = 133 \<or> n = 160)"

definition lower_char :: "char \<Rightarrow> char" where
  "lower_char c = (let n = (of_char c :: nat)
                   in if (65 \<le> n \<and> n \<le> 90) \<or> (192 \<le> n \<and> n \<le> 222 \<and> n \<noteq> 215)
                      then char_of (n + 32) else c)"

text \<open>\<open>s.lower()\<close>\<close>

definition str_lower :: "string \<Rightarrow> string" where
  "str_lower s = map lower_char s"

text \<open>\<open>s.strip()\<close>: whitespace is removed at both ends.\<close>

definition str_strip :: "string \<Rightarrow> string" where
  "str_strip s = rev (dropWhile isspace (rev (dropWhile isspace s)))"

text \<open>
  \<open>s.split()\<close> with no separator: leading whitespace is skipped, the characters up to
  the next whitespace form a word, and the scan goes on behind that word.
\<close>

function str_split :: "string \<Rightarrow> string list" where
  "str_split s =
     (case dropWhile isspace s of
        [] \<Rightarrow> []
      | c # cs \<Rightarrow> (c # takeWhile (\<lambda>x. \<not> isspace x) cs)
                 # str_split (dropWhile (\<lambda>x. \<not> isspace x) cs))"
  by pat_completeness auto
termination
proof (relation "measure length")
  show "wf (measure length)" by simp
next
  fix s :: string and c cs
  assume h: "dropWhile isspace s = c # cs"
  have "length (dropWhile (\<lambda>x. \<not> isspace x) cs) \<le> length cs"
    by (rule length_dropWhile_le)
  moreover have "length (c # cs) \<le> length s"
    using length_dropWhile_le [of isspace s] h by simp
  ultimately show "(dropWhile (\<lambda>x. \<not> isspace x) cs, s) \<in> measure length"
    by simp
qed

declare str_split.simps [simp del]

text \<open>\<open>sep.join(ws)\<close>\<close>

fun str_join :: "string \<Rightarrow> string list \<Rightarrow> string" where
  "str_join sep [] = []"
| "str_join sep [w] = w"
| "str_join sep (w # v # ws) = w @ sep @ str_join sep (v # ws)"

section \<open>Answer matching\<close>

text \<open>\<open>normalize_answer(s)\<close> is \<open>" ".join(s.strip().lower().split())\<close>.\<close>

definition normalize_answer :: "string \<Rightarrow> string" where
  "normalize_answer s = str_join '' '' (str_split (str_lower (str_strip s)))"

text \<open>
  The \<open>for\<close> loop of \<open>answer_matches\<close>: the first accepted answer whose normal form is
  the user's returns \<open>True\<close>; falling off the end of the list returns \<open>False\<close>.
\<close>

fun answer_matches_loop :: "string \<Rightarrow> string list \<Rightarrow> bool" where
  "answer_matches_loop user [] = False"
| "answer_matches_loop user (accepted # rest) =
     (if user = normalize_answer accepted then True else answer_matches_loop user rest)"

definition answer_matches :: "string \<Rightarrow> string list \<Rightarrow> bool" where
  "answer_matches user_answer accepted_answers =
     answer_matches_loop (normalize_answer user_answer) accepted_answers"

text \<open>
  The normalization as the specification words it, for comparison with
  \<open>normalize_answer\<close>: trim, lower-case, and replace every run of whitespace that is
  left by one space.
\<close>

function collapse_runs :: "string \<Rightarrow> string" where
  "collapse_runs [] = []"
| "collapse_runs (c # cs) =
     (if isspace c then CHR '' '' # collapse_runs (dropWhile isspace cs)
      else c # collapse_runs cs)"
  by pat_completeness auto
termination
  by (relation "measure length") (auto simp: less_Suc_eq_le length_dropWhile_le)

definition spec_normalize :: "string \<Rightarrow> string" where
  "spec_normalize s = collapse_runs (map lower_char (str_strip s))"

text \<open>A word is what \<open>split\<close> yields: not empty, and free of whitespace.\<close>

definition word :: "string \<Rightarrow> bool" where
  "word w \<longleftrightarrow> w \<noteq> [] \<and> (\<forall>c\<in>set w. \<not> isspace c)"

section \<open>The world: standard input and output, the score file\<close>

datatype py_error =
    EOFError | KeyError | IndexError | ZeroDivisionError | AttributeError | UnicodeDecodeError

text \<open>One score entry, as \<open>save_score\<close> writes it.\<close>

record entry =
  entry_set_id :: string
  entry_set_title :: string
  entry_score :: int
  entry_total :: int
  entry_date :: string

text \<open>
  What \<open>json.load\<close> returns for the score file: an object, with the list under its key
  \<open>"history"\<close> when it has that key, or a value that is not an object.
\<close>

datatype document = Object "entry list option" | Not_object

text \<open>
  The score file, by what reading it does: \<open>Missing\<close> (\<open>exists()\<close> is false),
  \<open>Unreadable\<close> (\<open>open\<close> or the read raises \<open>IOError\<close>), \<open>Invalid_syntax\<close>
  (\<open>json.load\<close> raises \<open>JSONDecodeError\<close>), \<open>Invalid_encoding\<close> (the bytes are not
  UTF-8 and decoding raises \<open>UnicodeDecodeError\<close>), or \<open>Json d\<close> (\<open>json.load\<close> returns
  the document \<open>d\<close>).
\<close>

datatype file_state = Missing | Unreadable | Invalid_syntax | Invalid_encoding | Json document

text \<open>
  What the program prints, one constructor for each kind of \<open>print\<close> statement of the
  presenter and the runners; \<open>Prompt\<close> is the prompt that \<open>input\<close> writes.
\<close>

datatype event =
    Banner string
  | Question_header nat nat
  | Question_text string
  | Option_line string string
  | Prompt string
  | Please_type
  | Correct
  | Incorrect
  | Incorrect_mc string string
  | Correct_answers string
  | Explanation string
  | Retry_complete nat

record world =
  stdin :: "string list"
  stdout :: "event list"
  scores_file :: file_state

definition print :: "event \<Rightarrow> world \<Rightarrow> world" where
  "print e w = w\<lparr>stdout := stdout w @ [e]\<rparr>"

text \<open>\<open>input(p)\<close> writes the prompt and reads one line; at the end of the input it raises.\<close>

definition input :: "string \<Rightarrow> world \<Rightarrow> py_error + (string \<times> world)" where
  "input p w =
     (case stdin w of
        [] \<Rightarrow> Inl EOFError
      | l # ls \<Rightarrow> Inr (l, w\<lparr>stdin := ls, stdout := stdout w @ [Prompt p]\<rparr>))"

section \<open>Score history\<close>

text \<open>
  \<open>load_scores()\<close>: a missing file gives the empty history; \<open>JSONDecodeError\<close> and
  \<open>IOError\<close> are caught and give the empty history; \<open>data.get("history", [])\<close> is the
  stored list, the empty list when the object has no such key, and raises
  \<open>AttributeError\<close> when the document is not an object. No other exception is caught.
\<close>

definition load_scores :: "world \<Rightarrow> py_error + entry list" where
  "load_scores w =
     (case scores_file w of
        Missing \<Rightarrow> Inr []
      | Unreadable \<Rightarrow> Inr []
      | Invalid_syntax \<Rightarrow> Inr []
      | Invalid_encoding \<Rightarrow> Inl UnicodeDecodeError
      | Json Not_object \<Rightarrow> Inl AttributeError
      | Json (Object None) \<Rightarrow> Inr []
      | Json (Object (Some history)) \<Rightarrow> Inr history)"

text \<open>
  \<open>save_score(set_id, set_title, score, total)\<close>: the loaded history with one entry
  appended is written over the file as the object \<open>{"history": history}\<close>. The argument
  \<open>now\<close> is the text of \<open>datetime.now().isoformat()\<close>.
\<close>

definition save_score :: "string \<Rightarrow> string \<Rightarrow> int \<Rightarrow> int \<Rightarrow> string \<Rightarrow> world \<Rightarrow> py_error + world" where
  "save_score set_id set_title score tot now w =
     (case load_scores w of
        Inl e \<Rightarrow> Inl e
      | Inr history \<Rightarrow>
          Inr (w\<lparr>scores_file :=
                 Json (Object (Some (history @
                   [\<lparr>entry_set_id = set_id, entry_set_title = set_title,
                     entry_score = score, entry_total = tot, entry_date = now\<rparr>])))\<rparr>))"

text \<open>The value \<open>{"last": ..., "best": ...}\<close> kept for one key; a pair is \<open>(score, total)\<close>.\<close>

record stat =
  stat_last :: "(int \<times> int) option"
  stat_best :: "(int \<times> int) option"

text \<open>
  The dictionary \<open>result\<close> is an association list in insertion order; \<open>AList.update\<close>
  overwrites the value of a key that is present, in place, and appends a new key.
\<close>

type_synonym stats = "(string \<times> stat) list"

definition init_stats :: "string list \<Rightarrow> stats" where
  "init_stats set_ids =
     fold (\<lambda>sid r. AList.update sid \<lparr>stat_last = None, stat_best = None\<rparr> r)
          (set_ids @ [''all'']) []"

text \<open>
  The loop over the history. The parameter \<open>truediv\<close> is Python's \<open>/\<close> on two
  integers with a divisor that is not zero (a float, the rounded quotient): any linearly
  ordered type of quotients will do, and the exact rationals are one. A zero divisor
  raises \<open>ZeroDivisionError\<close>, the left operand \<open>s / t\<close> of the comparison first, then
  the right one. When \<open>best\<close> is \<open>None\<close> the \<open>or\<close> does not evaluate the comparison.
\<close>

fun scan_history :: "(int \<Rightarrow> int \<Rightarrow> 'r::linorder) \<Rightarrow> entry list \<Rightarrow> stats \<Rightarrow> py_error + stats" where
  "scan_history truediv [] result = Inr result"
| "scan_history truediv (e # history) result =
     (let sid = entry_set_id e;
          result1 = (case map_of result sid of
                       None \<Rightarrow> AList.update sid \<lparr>stat_last = None, stat_best = None\<rparr> result
                     | Some _ \<Rightarrow> result);
          s = entry_score e;
          t = entry_total e;
          best = (case map_of result1 sid of None \<Rightarrow> None | Some st \<Rightarrow> stat_best st)
      in case best of
           None \<Rightarrow>
             scan_history truediv history
               (AList.update sid \<lparr>stat_last = Some (s, t), stat_best = Some (s, t)\<rparr> result1)
         | Some (bs, bt) \<Rightarrow>
             if t = 0 then Inl ZeroDivisionError
             else if bt = 0 then Inl ZeroDivisionError
             else if truediv s t > truediv bs bt
             then scan_history truediv history
                    (AList.update sid \<lparr>stat_last = Some (s, t), stat_best = Some (s, t)\<rparr> result1)
             else scan_history truediv history
                    (AList.update sid \<lparr>stat_last = Some (s, t), stat_best = Some (bs, bt)\<rparr> result1))"

text \<open>\<open>get_last_and_best(sets_data)\<close>; of \<open>sets_data\<close> only the keys are used.\<close>

definition get_last_and_best ::
  "(int \<Rightarrow> int \<Rightarrow> 'r::linorder) \<Rightarrow> string list \<Rightarrow> world \<Rightarrow> py_error + stats" where
  "get_last_and_best truediv set_ids w =
     (case load_scores w of
        Inl e \<Rightarrow> Inl e
      | Inr history \<Rightarrow> scan_history truediv history (init_stats set_ids))"

text \<open>The entries of a history under one key, as \<open>(score, total)\<close> pairs in stored order.\<close>

definition entries_of :: "string \<Rightarrow> entry list \<Rightarrow> (int \<times> int) list" where
  "entries_of k history =
     map (\<lambda>e. (entry_score e, entry_total e)) (filter (\<lambda>e. entry_set_id e = k) history)"

definition ratio :: "(int \<Rightarrow> int \<Rightarrow> 'r) \<Rightarrow> int \<times> int \<Rightarrow> 'r" where
  "ratio truediv p = truediv (fst p) (snd p)"

text \<open>The exact quotient, one instance of \<open>truediv\<close>.\<close>

definition rat_div :: "int \<Rightarrow> int \<Rightarrow> rat" where
  "rat_div s t = of_int s / of_int t"

text \<open>The \<open>best\<close> pair that a result holds for a key; \<open>None\<close> when there is none.\<close>

definition best_in :: "stats \<Rightarrow> string \<Rightarrow> (int \<times> int) option" where
  "best_in result k = (case map_of result k of None \<Rightarrow> None | Some st \<Rightarrow> stat_best st)"

text \<open>
  The best pair as the specification words it, for comparison with what
  \<open>scan_history\<close> computes: scanning in stored order, a pair replaces the one kept
  only when its ratio is strictly greater.
\<close>

definition keep_step :: "(int \<Rightarrow> int \<Rightarrow> 'r::linorder) \<Rightarrow> (int \<times> int) option \<Rightarrow> int \<times> int \<Rightarrow> (int \<times> int) option" where
  "keep_step truediv kept p =
     (case kept of
        None \<Rightarrow> Some p
      | Some b \<Rightarrow> if ratio truediv p > ratio truediv b then Some p else Some b)"

definition first_best :: "(int \<Rightarrow> int \<Rightarrow> 'r::linorder) \<Rightarrow> (int \<times> int) list \<Rightarrow> (int \<times> int) option" where
  "first_best truediv ps = foldl (keep_step truediv) None ps"

section \<open>Questions and the presenter\<close>

text \<open>
  A question is a dictionary read from JSON. Each field is \<open>None\<close> when the key is
  absent, so that \<open>q["key"]\<close> on an absent key is the \<open>KeyError\<close> it is in the source.
  The options are the pairs \<open>(label, text)\<close> of the \<open>options\<close> object, in its order.
\<close>

record question =
  q_type :: "string option"
  q_question :: "string option"
  q_prompt :: "string option"
  q_options :: "(string \<times> string) list option"
  q_correct_option :: "string option"
  q_answers :: "string list option"
  q_explanation :: "string option"

text \<open>\<open>q.get("prompt") or q.get("question", "")\<close>\<close>

definition open_text :: "question \<Rightarrow> string" where
  "open_text q =
     (case q_prompt q of
        Some p \<Rightarrow> if p \<noteq> [] then p else (case q_question q of Some t \<Rightarrow> t | None \<Rightarrow> [])
      | None \<Rightarrow> (case q_question q of Some t \<Rightarrow> t | None \<Rightarrow> []))"

definition ask_open_question :: "question \<Rightarrow> nat \<Rightarrow> nat \<Rightarrow> world \<Rightarrow> py_error + (bool \<times> world)" where
  "ask_open_question q question_num tot w =
     (let w1 = print (Question_header question_num tot) w;
          w2 = print (Question_text (open_text q)) w1
      in case input ''Your answer: '' w2 of
           Inl e \<Rightarrow> Inl e
         | Inr (line, w3) \<Rightarrow>
             (let user_answer = str_strip line
              in case q_answers q of
                   None \<Rightarrow> Inl KeyError
                 | Some answers \<Rightarrow>
                     (let is_correct = answer_matches user_answer answers;
                          w4 = (if is_correct then print Correct w3
                                else print (Correct_answers (str_join '' / '' answers))
                                       (print Incorrect w3))
                      in case q_explanation q of
                           None \<Rightarrow> Inl KeyError
                         | Some ex \<Rightarrow> Inr (is_correct, print (Explanation ex) w4))))"

text \<open>
  The \<open>while True\<close> loop of \<open>ask_mc_question\<close>: a line is read, trimmed and
  lower-cased; when it is a key of \<open>options\<close> the loop ends, otherwise the hint is
  printed and the next line is read. Each round consumes one line of the input, which
  is finite, so the loop ends: with a label, or with \<open>EOFError\<close>.
\<close>

function choice_loop :: "(string \<times> string) list \<Rightarrow> world \<Rightarrow> py_error + (string \<times> world)" where
  "choice_loop opts w =
     (case input ''Your choice (a/b/c/d): '' w of
        Inl e \<Rightarrow> Inl e
      | Inr (line, w1) \<Rightarrow>
          (let user_answer = str_lower (str_strip line)
           in if user_answer \<in> set (map fst opts) then Inr (user_answer, w1)
              else choice_loop opts (print Please_type w1)))"
  by pat_completeness auto
termination
proof (relation "measure (\<lambda>(opts, w). length (stdin w))")
  show "wf (measure (\<lambda>(opts, w). length (stdin w)))" by simp
next
  fix opts :: "(string \<times> string) list" and w :: world and x2 line w1 user_answer
  assume "input ''Your choice (a/b/c/d): '' w = Inr x2" and "(line, w1) = x2"
  then have "length (stdin w1) < length (stdin w)"
    by (auto simp: input_def split: list.splits)
  then show "((opts, print Please_type w1), (opts, w)) \<in> measure (\<lambda>(opts, w). length (stdin w))"
    by (simp add: print_def)
qed

declare choice_loop.simps [simp del]

definition ask_mc_question :: "question \<Rightarrow> nat \<Rightarrow> nat \<Rightarrow> world \<Rightarrow> py_error + (bool \<times> world)" where
  "ask_mc_question q question_num tot w =
     (let w1 = print (Question_header question_num tot) w
      in case q_question q of
           None \<Rightarrow> Inl KeyError
         | Some text \<Rightarrow>
       (let w2 = print (Question_text text) w1
        in case q_options q of
             None \<Rightarrow> Inl KeyError
           | Some opts \<Rightarrow>
         (let w3 = fold (\<lambda>(label, option). print (Option_line label option)) opts w2
          in case choice_loop opts w3 of
               Inl e \<Rightarrow> Inl e
             | Inr (user_answer, w4) \<Rightarrow>
           (case q_correct_option q of
              None \<Rightarrow> Inl KeyError
            | Some correct \<Rightarrow>
             (let is_correct = (user_answer = correct)
              in case (if is_correct then Inr (print Correct w4)
                       else (case map_of opts correct of
                               None \<Rightarrow> Inl KeyError
                             | Some correct_text \<Rightarrow>
                                 Inr (print (Incorrect_mc correct correct_text) w4))) of
                   Inl e \<Rightarrow> Inl e
                 | Inr w5 \<Rightarrow>
                     (case q_explanation q of
                        None \<Rightarrow> Inl KeyError
                      | Some ex \<Rightarrow> Inr (is_correct, print (Explanation ex) w5)))))))"

section \<open>Runners\<close>

text \<open>
  The branch on the question's type. \<open>run_set\<close> and \<open>retry_wrong\<close> read \<open>q["type"]\<close>,
  which raises when the key is absent (\<open>strict\<close>); \<open>run_practice_section\<close> reads
  \<open>q.get("type")\<close>, which is then \<open>None\<close> and selects the open form.
\<close>

definition ask_question :: "bool \<Rightarrow> question \<Rightarrow> nat \<Rightarrow> nat \<Rightarrow> world \<Rightarrow> py_error + (bool \<times> world)" where
  "ask_question strict q num tot w =
     (case q_type q of
        None \<Rightarrow> if strict then Inl KeyError else ask_open_question q num tot w
      | Some ty \<Rightarrow> if ty = ''mc'' then ask_mc_question q num tot w
                   else ask_open_question q num tot w)"

text \<open>
  The scoring loop \<open>for i, q in enumerate(qs)\<close> of \<open>run_set\<close> and
  \<open>run_practice_section\<close>, from index \<open>i\<close> on, with the score and the wrong indices
  so far.
\<close>

fun ask_each :: "bool \<Rightarrow> question list \<Rightarrow> nat \<Rightarrow> nat \<Rightarrow> nat \<Rightarrow> nat list \<Rightarrow> world
                   \<Rightarrow> py_error + ((nat \<times> nat list) \<times> world)" where
  "ask_each strict [] i tot score wrong_indices w = Inr ((score, wrong_indices), w)"
| "ask_each strict (q # qs) i tot score wrong_indices w =
     (case ask_question strict q (i + 1) tot w of
        Inl e \<Rightarrow> Inl e
      | Inr (correct, w1) \<Rightarrow>
          if correct then ask_each strict qs (i + 1) tot (score + 1) wrong_indices w1
          else ask_each strict qs (i + 1) tot score (wrong_indices @ [i]) w1)"

text \<open>\<open>qs[:m]\<close> for a Python integer \<open>m\<close>: a negative bound counts from the end.\<close>

definition slice_to :: "'a list \<Rightarrow> int \<Rightarrow> 'a list" where
  "slice_to xs m = (if m < 0 then take (nat (int (length xs) + m)) xs else take (nat m) xs)"

definition rule_line :: "char \<Rightarrow> string" where
  "rule_line c = replicate 60 c"

text \<open>
  \<open>run_set(questions, title, shuffle, max_questions)\<close>. The parameter
  \<open>random_shuffle\<close> is the order that \<open>random.shuffle\<close> leaves the list in.
\<close>

definition run_set ::
  "(question list \<Rightarrow> question list) \<Rightarrow> question list \<Rightarrow> string \<Rightarrow> bool \<Rightarrow> int option \<Rightarrow> world
     \<Rightarrow> py_error + ((nat \<times> nat \<times> nat list \<times> question list) \<times> world)" where
  "run_set random_shuffle questions title shuffle max_questions w =
     (let qs0 = (if shuffle then random_shuffle questions else questions);
          qs = (case max_questions of
                  None \<Rightarrow> qs0
                | Some m \<Rightarrow> if m < int (length qs0) then slice_to qs0 m else qs0);
          tot = length qs;
          w1 = print (Banner (rule_line CHR ''='')) (print (Banner title)
                 (print (Banner (CHR 0x0A # rule_line CHR ''='')) w))
      in case ask_each True qs 0 tot 0 [] w1 of
           Inl e \<Rightarrow> Inl e
         | Inr ((score, wrong_indices), w2) \<Rightarrow> Inr ((score, tot, wrong_indices, qs), w2))"

text \<open>\<open>run_practice_section(section_title, questions)\<close>\<close>

definition run_practice_section ::
  "string \<Rightarrow> question list \<Rightarrow> world
     \<Rightarrow> py_error + ((nat \<times> nat \<times> nat list \<times> question list) \<times> world)" where
  "run_practice_section section_title questions w =
     (let qs = questions;
          tot = length qs;
          w1 = print (Banner (rule_line CHR ''='')) (print (Banner (''  '' @ section_title))
                 (print (Banner (CHR 0x0A # rule_line CHR ''='')) w))
      in case ask_each False qs 0 tot 0 [] w1 of
           Inl e \<Rightarrow> Inl e
         | Inr ((score, wrong_indices), w2) \<Rightarrow> Inr ((score, tot, wrong_indices, qs), w2))"

text \<open>\<open>[questions_list[i] for i in wrong_indices]\<close>; an index out of range raises.\<close>

fun pick :: "question list \<Rightarrow> nat list \<Rightarrow> py_error + question list" where
  "pick questions_list [] = Inr []"
| "pick questions_list (i # is) =
     (if i < length questions_list
      then (case pick questions_list is of
              Inl e \<Rightarrow> Inl e
            | Inr qs \<Rightarrow> Inr (questions_list ! i # qs))
      else Inl IndexError)"

text \<open>The loop of \<open>retry_wrong\<close>: the result of each question is dropped.\<close>

fun retry_each :: "question list \<Rightarrow> nat \<Rightarrow> nat \<Rightarrow> world \<Rightarrow> py_error + world" where
  "retry_each [] i tot w = Inr w"
| "retry_each (q # qs) i tot w =
     (case ask_question True q (i + 1) tot w of
        Inl e \<Rightarrow> Inl e
      | Inr (correct, w1) \<Rightarrow> retry_each qs (i + 1) tot w1)"

definition retry_wrong :: "question list \<Rightarrow> nat list \<Rightarrow> string \<Rightarrow> world \<Rightarrow> py_error + world" where
  "retry_wrong questions_list wrong_indices title w =
     (if wrong_indices = [] then Inr w
      else case pick questions_list wrong_indices of
             Inl e \<Rightarrow> Inl e
           | Inr to_retry \<Rightarrow>
               (let w1 = print (Banner (rule_line CHR ''-''))
                           (print (Banner ''Retry: questions you got wrong'')
                              (print (Banner (CHR 0x0A # rule_line CHR ''-'')) w))
                in case retry_each to_retry 0 (length to_retry) w1 of
                     Inl e \<Rightarrow> Inl e
                   | Inr w2 \<Rightarrow> Inr (print (Retry_complete (length to_retry)) w2)))"

text \<open>The question texts among the printed events, in the order they were printed.\<close>

fun question_texts :: "event list \<Rightarrow> string list" where
  "question_texts [] = []"
| "question_texts (Question_text t # es) = t # question_texts es"
| "question_texts (e # es) = question_texts es"

text \<open>The text that presenting a question prints for it.\<close>

definition shown_text :: "question \<Rightarrow> string" where
  "shown_text q =
     (if q_type q = Some ''mc'' then (case q_question q of Some t \<Rightarrow> t | None \<Rightarrow> [])
      else open_text q)"

text \<open>The lines that list the options, as the \<open>for\<close> loop over \<open>options.items()\<close> prints them.\<close>

definition option_lines :: "(string \<times> string) list \<Rightarrow> event list" where
  "option_lines opts = map (\<lambda>(label, option). Option_line label option) opts"

text \<open>A line is accepted when, trimmed and lower-cased, it is one of the labels.\<close>

definition accepted :: "(string \<times> string) list \<Rightarrow> string \<Rightarrow> bool" where
  "accepted opts line \<longleftrightarrow> str_lower (str_strip line) \<in> fst ` set opts"

text \<open>What the loop prints for the lines it rejects: the prompt and the hint, once each.\<close>

definition reprompts :: "string list \<Rightarrow> event list" where
  "reprompts rejected =
     concat (map (\<lambda>r. [Prompt ''Your choice (a/b/c/d): '', Please_type]) rejected)"

section \<open>Example data\<close>

definition mk_entry :: "string \<Rightarrow> int \<Rightarrow> int \<Rightarrow> entry" where
  "mk_entry sid s t =
     \<lparr>entry_set_id = sid, entry_set_title = ''Set'', entry_score = s, entry_total = t,
      entry_date = ''2024-05-01T10:00:00''\<rparr>"

definition world_with :: "entry list \<Rightarrow> world" where
  "world_with h = \<lparr>stdin = [], stdout = [], scores_file = Json (Object (Some h))\<rparr>"

text \<open>
  A history in which the key \<open>s1\<close> has the ratios 1/2, 3/4, 6/8 and 1/4, in that
  order, with an entry of another key in between.
\<close>

definition history_example :: "entry list" where
  "history_example =
     [mk_entry ''s1'' 1 2, mk_entry ''s2'' 5 5, mk_entry ''s1'' 3 4,
      mk_entry ''s1'' 6 8, mk_entry ''s1'' 1 4]"

text \<open>A multiple-choice question and two open questions, and a world that has typed lines.\<close>

definition q_mc :: question where
  "q_mc = \<lparr>q_type = Some ''mc'', q_question = Some ''She ___ to school.'', q_prompt = None,
           q_options = Some [(''a'', ''go''), (''b'', ''goes'')], q_correct_option = Some ''b'',
           q_answers = None, q_explanation = Some ''Third person singular.''\<rparr>"

definition q_open :: question where
  "q_open = \<lparr>q_type = Some ''open'', q_question = None, q_prompt = Some ''How often?'',
             q_options = None, q_correct_option = None,
             q_answers = Some [''three times''], q_explanation = Some ''Frequency.''\<rparr>"

definition q_gap :: question where
  "q_gap = \<lparr>q_type = None, q_question = Some ''I have ___ here.'', q_prompt = None,
            q_options = None, q_correct_option = None,
            q_answers = Some [''been'', ''lived''], q_explanation = Some ''Present perfect.''\<rparr>"

definition q_sentence :: question where
  "q_sentence = \<lparr>q_type = Some ''makesentence'', q_question = Some ''I / live / here'',
                 q_prompt = None, q_options = None, q_correct_option = None,
                 q_answers = Some [''I have lived here''], q_explanation = Some ''Word order.''\<rparr>"

text \<open>The same multiple-choice question with its labels in upper case.\<close>

definition q_upper :: question where
  "q_upper = \<lparr>q_type = Some ''mc'', q_question = Some ''She ___ to school.'', q_prompt = None,
              q_options = Some [(''A'', ''go''), (''B'', ''goes'')], q_correct_option = Some ''B'',
              q_answers = None, q_explanation = Some ''Third person singular.''\<rparr>"

definition world_in :: "string list \<Rightarrow> world" where
  "world_in lines = \<lparr>stdin = lines, stdout = [], scores_file = Missing\<rparr>"

section \<open>Properties of the normalization\<close>

lemma isspace_lower_char [simp]: "isspace (lower_char c) = isspace c"
  by (auto simp: isspace_def lower_char_def Let_def)

lemma lower_char_idem [simp]: "lower_char (lower_char c) = lower_char c"
  by (auto simp: lower_char_def Let_def)

lemma isspace_space [simp]: "isspace CHR '' ''"
  by (simp add: isspace_def)

lemma lower_char_space [simp]: "lower_char CHR '' '' = CHR '' ''"
  by (simp add: lower_char_def)

lemma str_split_Nil [simp]: "str_split [] = []"
  by (simp add: str_split.simps)

lemma str_split_dropWhile: "str_split (dropWhile isspace s) = str_split s"
  by (simp add: str_split.simps [of s] str_split.simps [of "dropWhile isspace s"])

lemma str_split_space [simp]: "isspace c \<Longrightarrow> str_split (c # s) = str_split s"
  using str_split_dropWhile [of "c # s"] str_split_dropWhile [of s] by simp

lemma str_split_word:
  assumes "\<not> isspace c" "\<forall>x\<in>set cs. \<not> isspace x" "r = [] \<or> isspace (hd r)"
  shows "str_split (c # cs @ r) = (c # cs) # str_split r"
proof -
  have t: "takeWhile (\<lambda>x. \<not> isspace x) (cs @ r) = cs"
    using assms(2,3) by (cases r) (auto simp: takeWhile_append2)
  have d: "dropWhile (\<lambda>x. \<not> isspace x) (cs @ r) = r"
    using assms(2,3) by (cases r) (auto simp: dropWhile_append2)
  show ?thesis
    using assms(1) by (simp add: str_split.simps [of "c # cs @ r"] t d)
qed

lemma str_split_words: "w \<in> set (str_split s) \<Longrightarrow> word w \<and> set w \<subseteq> set s"
proof (induction s arbitrary: w rule: str_split.induct)
  case (1 s)
  show ?case
  proof (cases "dropWhile isspace s")
    case Nil
    with "1.prems" show ?thesis by (simp add: str_split.simps [of s])
  next
    case (Cons c cs)
    have c: "\<not> isspace c" using Cons hd_dropWhile [of isspace s] by auto
    have sub: "set (c # cs) \<subseteq> set s"
      using set_dropWhileD [of _ isspace s] Cons by auto
    from "1.prems" Cons
    consider "w = c # takeWhile (\<lambda>x. \<not> isspace x) cs"
      | "w \<in> set (str_split (dropWhile (\<lambda>x. \<not> isspace x) cs))"
      by (auto simp: str_split.simps [of s])
    then show ?thesis
    proof cases
      case 1
      then show ?thesis using c sub
        by (auto simp: word_def dest: set_takeWhileD)
    next
      case 2
      from "1.IH" [OF Cons 2] sub show ?thesis
        by (auto dest: set_dropWhileD)
    qed
  qed
qed

lemma str_split_join:
  "\<forall>w\<in>set ws. word w \<Longrightarrow> str_split (str_join '' '' ws) = ws"
proof (induction "'' ''" ws rule: str_join.induct)
  case 1
  then show ?case by simp
next
  case (2 w)
  then obtain c cs where w: "w = c # cs" by (cases w) (auto simp: word_def)
  with 2 show ?case using str_split_word [of c cs "[]"] by (simp add: word_def)
next
  case (3 w v ws)
  then obtain c cs where w: "w = c # cs" by (cases w) (auto simp: word_def)
  with 3 show ?case
    using str_split_word [of c cs "'' '' @ str_join '' '' (v # ws)"]
    by (simp add: word_def)
qed

lemma str_strip_Nil [simp]: "str_strip [] = []"
  by (simp add: str_strip_def)

lemma str_strip_id:
  "s \<noteq> [] \<Longrightarrow> \<not> isspace (hd s) \<Longrightarrow> \<not> isspace (last s) \<Longrightarrow> str_strip s = s"
proof -
  assume ne: "s \<noteq> []" and h: "\<not> isspace (hd s)" and l: "\<not> isspace (last s)"
  have a: "dropWhile isspace s = s" using ne h by (cases s) auto
  obtain t where t: "s = t @ [last s]" using ne append_butlast_last_id [of s] by metis
  have r: "rev s = last s # rev t" by (subst t) simp
  have "dropWhile isspace (last s # rev t) = last s # rev t" using l by simp
  then have b: "dropWhile isspace (rev s) = rev s" by (simp only: r)
  show ?thesis by (simp add: str_strip_def a b)
qed

lemma str_join_ends:
  "ws \<noteq> [] \<Longrightarrow> \<forall>w\<in>set ws. word w \<Longrightarrow>
     str_join '' '' ws \<noteq> [] \<and> hd (str_join '' '' ws) = hd (hd ws)
       \<and> last (str_join '' '' ws) = last (last ws)"
  by (induction "'' ''" ws rule: str_join.induct) (auto simp: word_def)

lemma str_strip_join:
  assumes "\<forall>w\<in>set ws. word w"
  shows "str_strip (str_join '' '' ws) = str_join '' '' ws"
proof (cases ws)
  case Nil
  then show ?thesis by simp
next
  case (Cons w ws')
  then have ne: "ws \<noteq> []" by simp
  have "word (hd ws)" "word (last ws)" using assms ne by auto
  then have "\<not> isspace (hd (hd ws))" "\<not> isspace (last (last ws))"
    by (auto simp: word_def)
  with str_join_ends [OF ne assms] show ?thesis by (simp add: str_strip_id)
qed

lemma set_str_join: "set (str_join sep ws) \<subseteq> set sep \<union> \<Union> (set ` set ws)"
  by (induction sep ws rule: str_join.induct) auto

lemma str_lower_join:
  assumes "\<forall>w\<in>set ws. \<forall>c\<in>set w. lower_char c = c"
  shows "str_lower (str_join '' '' ws) = str_join '' '' ws"
proof -
  have "\<forall>c\<in>set (str_join '' '' ws). lower_char c = c"
    using set_str_join [of "'' ''" ws] assms by auto
  then show ?thesis by (simp add: str_lower_def map_idI)
qed

lemma normalize_answer_words:
  "normalize_answer (str_join '' '' ws) = str_join '' '' ws"
  if "\<forall>w\<in>set ws. word w" "\<forall>w\<in>set ws. \<forall>c\<in>set w. lower_char c = c"
  using that by (simp add: normalize_answer_def str_strip_join str_lower_join str_split_join)

lemma normalize_idem: "normalize_answer (normalize_answer s) = normalize_answer s"
proof -
  let ?x = "str_lower (str_strip s)"
  have "\<forall>c\<in>set ?x. lower_char c = c" by (auto simp: str_lower_def)
  then have "\<forall>w\<in>set (str_split ?x). \<forall>c\<in>set w. lower_char c = c"
    using str_split_words [of _ ?x] by blast
  moreover have "\<forall>w\<in>set (str_split ?x). word w"
    using str_split_words [of _ ?x] by blast
  ultimately show ?thesis
    using normalize_answer_words [of "str_split ?x"] by (simp add: normalize_answer_def)
qed

lemma answer_matches_loop_iff:
  "answer_matches_loop u A \<longleftrightarrow> (\<exists>a\<in>set A. u = normalize_answer a)"
  by (induction A) auto


lemma collapse_runs_nonspace:
  "\<forall>x\<in>set t. \<not> isspace x \<Longrightarrow> collapse_runs (t @ r) = t @ collapse_runs r"
  by (induction t) auto

lemma str_split_empty_iff: "str_split s = [] \<longleftrightarrow> dropWhile isspace s = []"
  by (cases "dropWhile isspace s")
    (simp_all add: str_split.simps [of s] del: dropWhile_eq_Nil_conv)

lemma join_split_collapse:
  "s = [] \<or> \<not> isspace (last s) \<Longrightarrow>
     str_join '' '' (str_split s) = collapse_runs (dropWhile isspace s)"
proof (induction s rule: str_split.induct)
  case (1 s)
  show ?case
  proof (cases "dropWhile isspace s")
    case Nil
    then show ?thesis by (simp add: str_split.simps [of s] del: dropWhile_eq_Nil_conv)
  next
    case (Cons c cs)
    let ?t = "takeWhile (\<lambda>x. \<not> isspace x) cs"
    let ?d = "dropWhile (\<lambda>x. \<not> isspace x) cs"
    have c: "\<not> isspace c" using Cons hd_dropWhile [of isspace s] by auto
    have sp: "str_split s = (c # ?t) # str_split ?d"
      using Cons by (simp add: str_split.simps [of s])
    have cs: "cs = ?t @ ?d" by simp
    have "collapse_runs (c # ?t @ ?d) = c # ?t @ collapse_runs ?d"
      using c collapse_runs_nonspace [of ?t ?d] by (auto dest: set_takeWhileD)
    then have col: "collapse_runs (c # cs) = c # ?t @ collapse_runs ?d" by simp
    have s_ne: "s \<noteq> []" using Cons by auto
    have last_s: "last s = last (c # cs)"
      using Cons takeWhile_dropWhile_id [of isspace s] last_appendR [of "c # cs" "takeWhile isspace s"]
      by simp
    show ?thesis
    proof (cases ?d)
      case Nil
      have a: "str_split ?d = []" by (simp only: Nil str_split_Nil)
      have b: "collapse_runs ?d = []" by (simp only: Nil collapse_runs.simps)
      have "str_join '' '' (str_split s) = c # ?t" by (simp only: sp a str_join.simps)
      also have "\<dots> = collapse_runs (c # cs)" by (simp only: col b append_Nil2)
      finally show ?thesis by (simp only: Cons)
    next
      case d: (Cons e es)
      have e: "isspace e" using d hd_dropWhile [of "\<lambda>x. \<not> isspace x" cs] by auto
      have "last (c # cs) = last ?d"
        using d cs last_appendR [of ?d "c # ?t"] by (metis append_Cons list.distinct(1))
      then have ld: "\<not> isspace (last ?d)" using "1.prems" s_ne last_s by simp
      then have ih: "str_join '' '' (str_split ?d) = collapse_runs (dropWhile isspace ?d)"
        using "1.IH" [OF Cons] by simp
      have "dropWhile isspace ?d \<noteq> []"
      proof
        assume "dropWhile isspace ?d = []"
        then have "\<forall>x\<in>set ?d. isspace x" by (simp only: dropWhile_eq_Nil_conv)
        moreover have "last ?d \<in> set ?d" using d by simp
        ultimately show False using ld by blast
      qed
      then have "str_split ?d \<noteq> []" unfolding str_split_empty_iff .
      then obtain v vs where v: "str_split ?d = v # vs"
        by (auto simp only: neq_Nil_conv)
      have cd: "collapse_runs ?d = CHR '' '' # collapse_runs (dropWhile isspace ?d)"
      proof -
        have "collapse_runs (e # es) = CHR '' '' # collapse_runs (dropWhile isspace (e # es))"
          using e by simp
        then show ?thesis by (simp only: d)
      qed
      have "str_join '' '' (str_split s) = (c # ?t) @ '' '' @ str_join '' '' (str_split ?d)"
        by (simp only: sp v str_join.simps)
      also have "\<dots> = c # ?t @ collapse_runs ?d"
        by (simp only: ih cd append_Cons append_Nil)
      also have "\<dots> = collapse_runs (c # cs)" by (simp only: col)
      finally show ?thesis by (simp only: Cons)
    qed
  qed
qed

lemma str_strip_ends:
  "str_strip s = [] \<or> (\<not> isspace (hd (str_strip s)) \<and> \<not> isspace (last (str_strip s)))"
proof (cases "str_strip s = []")
  case True
  then show ?thesis by simp
next
  case False
  let ?d = "dropWhile isspace s"
  let ?e = "dropWhile isspace (rev ?d)"
  have e_ne: "?e \<noteq> []" using False by (simp add: str_strip_def)
  then have d_ne: "?d \<noteq> []" by (auto dest: set_dropWhileD)
  have he: "\<not> isspace (hd ?e)" using e_ne hd_dropWhile [of isspace "rev ?d"] by blast
  have "last (rev ?e) = hd ?e" using e_ne by (simp add: last_rev)
  then have l: "\<not> isspace (last (str_strip s))" using he by (simp add: str_strip_def)
  have "rev ?d = takeWhile isspace (rev ?d) @ ?e" by simp
  then have "last (rev ?d) = last ?e" using e_ne by (metis last_appendR)
  then have "last ?e = hd ?d" using d_ne by (simp add: last_rev)
  moreover have "hd (rev ?e) = last ?e" using e_ne by (simp add: hd_rev)
  moreover have "\<not> isspace (hd ?d)" using d_ne hd_dropWhile [of isspace s] by blast
  ultimately have "\<not> isspace (hd (str_strip s))" by (simp add: str_strip_def)
  with l show ?thesis by simp
qed

lemma normalize_answer_spec: "normalize_answer s = spec_normalize s"
proof -
  let ?x = "map lower_char (str_strip s)"
  from str_strip_ends [of s]
  have ends: "?x = [] \<or> (\<not> isspace (hd ?x) \<and> \<not> isspace (last ?x))"
    by (cases "str_strip s = []") (simp_all add: hd_map last_map)
  then have "dropWhile isspace ?x = ?x" by (cases ?x) auto
  moreover have "str_join '' '' (str_split ?x) = collapse_runs (dropWhile isspace ?x)"
    using ends join_split_collapse [of ?x] by blast
  ultimately show ?thesis
    by (simp add: normalize_answer_def spec_normalize_def str_lower_def)
qed

section \<open>Claims on answer matching\<close>

text \<open>
  Claim C1. For every user answer \<open>u\<close> and every list \<open>A\<close> of accepted answers,
  \<open>answer_matches u A\<close> holds if and only if the normal form of \<open>u\<close> is the normal
  form of some entry of \<open>A\<close>; the normal form computed by \<open>normalize_answer\<close> is the
  one the specification describes (trimmed, lower-cased, every run of whitespace
  collapsed to one space); and \<open>answer_matches("  Yes   please", ["yes please"])\<close> is
  true. Equality of normal forms is the only way to match.
\<close>

theorem answer_matches_iff_normalized:
  "(answer_matches u A \<longleftrightarrow> (\<exists>a\<in>set A. normalize_answer u = normalize_answer a))
   \<and> normalize_answer u = spec_normalize u
   \<and> answer_matches ''  Yes   please'' [''yes please'']"
proof -
  have "answer_matches ''  Yes   please'' [''yes please'']" by code_simp
  then show ?thesis
    by (simp add: answer_matches_def answer_matches_loop_iff normalize_answer_spec)
qed

theorem answer_matches_iff_normalized_witness:
  "answer_matches ''Three   Times'' [''three times'', ''3 times'']
   \<and> (\<exists>a\<in>set [''three times'', ''3 times''].
         normalize_answer ''Three   Times'' = normalize_answer a)
   \<and> \<not> answer_matches ''thrice'' [''three times'', ''3 times'']"
proof -
  have m: "answer_matches ''Three   Times'' [''three times'', ''3 times'']" by code_simp
  have n: "\<not> answer_matches ''thrice'' [''three times'', ''3 times'']" by code_simp
  from m answer_matches_iff_normalized [of "''Three   Times''" "[''three times'', ''3 times'']"]
  have "\<exists>a\<in>set [''three times'', ''3 times''].
          normalize_answer ''Three   Times'' = normalize_answer a"
    by blast
  with m n show ?thesis by blast
qed

text \<open>
  Claim C9. Answer normalization is idempotent: normalizing a normalized string
  changes nothing.
\<close>

theorem normalize_answer_idempotent:
  "normalize_answer (normalize_answer s) = normalize_answer s"
  by (rule normalize_idem)

section \<open>Properties of the score history\<close>

lemma best_in_update:
  "best_in (AList.update k v r) k' = (if k' = k then stat_best v else best_in r k')"
  by (simp add: best_in_def update_conv')

lemma best_in_init [simp]: "best_in (init_stats ids) k = None"
proof -
  have "best_in (fold (\<lambda>sid r. AList.update sid \<lparr>stat_last = None, stat_best = None\<rparr> r) xs r) k = None"
    if "best_in r k = None" for xs r
    using that by (induction xs arbitrary: r) (simp_all add: best_in_update)
  moreover have "best_in [] k = None" by (simp add: best_in_def)
  ultimately show ?thesis unfolding init_stats_def by blast
qed

lemma entries_of_Cons:
  "entries_of k (e # h) =
     (if entry_set_id e = k then (entry_score e, entry_total e) # entries_of k h
      else entries_of k h)"
  by (simp add: entries_of_def)

lemma scan_history_best:
  "scan_history truediv h r = Inr r' \<Longrightarrow>
     best_in r' k = foldl (keep_step truediv) (best_in r k) (entries_of k h)"
proof (induction h arbitrary: r)
  case Nil
  then show ?case by (simp add: entries_of_def)
next
  case (Cons e h)
  let ?sid = "entry_set_id e"
  let ?p = "(entry_score e, entry_total e)"
  let ?r1 = "case map_of r ?sid of
               None \<Rightarrow> AList.update ?sid \<lparr>stat_last = None, stat_best = None\<rparr> r
             | Some _ \<Rightarrow> r"
  have b1: "best_in ?r1 k' = best_in r k'" for k'
  proof (cases "map_of r ?sid")
    case None
    then have "best_in r ?sid = None" by (simp add: best_in_def)
    with None show ?thesis by (simp add: best_in_update)
  next
    case (Some st)
    then show ?thesis by simp
  qed
  have b1': "(case map_of ?r1 ?sid of None \<Rightarrow> None | Some st \<Rightarrow> stat_best st) = best_in r ?sid"
    using b1 [of ?sid] by (simp add: best_in_def)
  have step: "best_in r' k = foldl (keep_step truediv) (best_in r k) (entries_of k (e # h))"
    if run: "scan_history truediv h (AList.update ?sid v ?r1) = Inr r'"
      and v: "stat_best v = keep_step truediv (best_in r ?sid) ?p" for v
  proof (cases "k = ?sid")
    case True
    have "best_in (AList.update ?sid v ?r1) k = keep_step truediv (best_in r k) ?p"
      using True v by (simp add: best_in_update)
    with Cons.IH [OF run] True show ?thesis
      by (simp add: entries_of_Cons)
  next
    case False
    then have "best_in (AList.update ?sid v ?r1) k = best_in r k"
      by (simp add: best_in_update b1)
    with Cons.IH [OF run] False show ?thesis
      by (simp add: entries_of_Cons)
  qed
  show ?case
  proof (cases "best_in r ?sid")
    case None
    with Cons.prems b1'
    have "scan_history truediv h
            (AList.update ?sid \<lparr>stat_last = Some ?p, stat_best = Some ?p\<rparr> ?r1) = Inr r'"
      by (simp add: Let_def)
    then show ?thesis by (rule step) (simp add: None keep_step_def)
  next
    case (Some b)
    obtain bs bt where b: "b = (bs, bt)" by (cases b)
    show ?thesis
    proof (cases "truediv (entry_score e) (entry_total e) > truediv bs bt")
      case True
      with Cons.prems b1' Some b
      have "scan_history truediv h
              (AList.update ?sid \<lparr>stat_last = Some ?p, stat_best = Some ?p\<rparr> ?r1) = Inr r'"
        by (simp add: Let_def split: if_splits)
      then show ?thesis by (rule step) (simp add: Some b True keep_step_def ratio_def)
    next
      case False
      with Cons.prems b1' Some b
      have "scan_history truediv h
              (AList.update ?sid \<lparr>stat_last = Some ?p, stat_best = Some (bs, bt)\<rparr> ?r1) = Inr r'"
        by (simp add: Let_def split: if_splits)
      then show ?thesis by (rule step) (simp add: Some b False keep_step_def ratio_def)
    qed
  qed
qed


lemma scan_history_returns:
  "\<forall>e\<in>set h. entry_total e \<noteq> 0 \<Longrightarrow> \<forall>k b. best_in r k = Some b \<longrightarrow> snd b \<noteq> 0 \<Longrightarrow>
     \<exists>r'. scan_history truediv h r = Inr r'"
proof (induction h arbitrary: r)
  case Nil
  then show ?case by simp
next
  case (Cons e h)
  let ?sid = "entry_set_id e"
  let ?p = "(entry_score e, entry_total e)"
  let ?r1 = "case map_of r ?sid of
               None \<Rightarrow> AList.update ?sid \<lparr>stat_last = None, stat_best = None\<rparr> r
             | Some _ \<Rightarrow> r"
  have t: "entry_total e \<noteq> 0" and rest: "\<forall>e\<in>set h. entry_total e \<noteq> 0"
    using Cons.prems(1) by simp_all
  have b1: "best_in ?r1 k' = best_in r k'" for k'
  proof (cases "map_of r ?sid")
    case None
    then have "best_in r ?sid = None" by (simp add: best_in_def)
    with None show ?thesis by (simp add: best_in_update)
  next
    case (Some st)
    then show ?thesis by simp
  qed
  have b1': "(case map_of ?r1 ?sid of None \<Rightarrow> None | Some st \<Rightarrow> stat_best st) = best_in r ?sid"
    using b1 [of ?sid] by (simp add: best_in_def)
  have go: "\<exists>r'. scan_history truediv h (AList.update ?sid v ?r1) = Inr r'"
    if "\<exists>b. stat_best v = Some b \<and> snd b \<noteq> 0" for v
  proof (rule Cons.IH [OF rest], intro allI impI)
    fix k b
    assume "best_in (AList.update ?sid v ?r1) k = Some b"
    then have "stat_best v = Some b \<or> best_in r k = Some b"
      by (simp add: best_in_update b1 split: if_splits)
    then show "snd b \<noteq> 0"
      using that Cons.prems(2) by fastforce
  qed
  show ?case
  proof (cases "best_in r ?sid")
    case None
    with b1' go [of "\<lparr>stat_last = Some ?p, stat_best = Some ?p\<rparr>"] t show ?thesis
      by (simp add: Let_def)
  next
    case (Some b)
    obtain bs bt where b: "b = (bs, bt)" by (cases b)
    have bt: "bt \<noteq> 0" using Cons.prems(2) Some b by fastforce
    from b1' Some b t bt
      go [of "\<lparr>stat_last = Some ?p, stat_best = Some ?p\<rparr>"]
      go [of "\<lparr>stat_last = Some ?p, stat_best = Some (bs, bt)\<rparr>"]
    show ?thesis by (simp add: Let_def)
  qed
qed

lemma first_best_snoc:
  "first_best truediv (ps @ [p]) = keep_step truediv (first_best truediv ps) p"
  by (simp add: first_best_def)

lemma first_best_props:
  "ps \<noteq> [] \<Longrightarrow>
     \<exists>i<length ps. first_best truediv ps = Some (ps ! i)
        \<and> (\<forall>p\<in>set ps. ratio truediv p \<le> ratio truediv (ps ! i))
        \<and> (\<forall>j<i. ratio truediv (ps ! j) < ratio truediv (ps ! i))"
proof (induction ps rule: rev_induct)
  case Nil
  then show ?case by simp
next
  case (snoc x xs)
  show ?case
  proof (cases "xs = []")
    case True
    then show ?thesis by (simp add: first_best_def keep_step_def)
  next
    case False
    from snoc.IH [OF False] obtain i where i: "i < length xs"
      and fb: "first_best truediv xs = Some (xs ! i)"
      and mx: "\<forall>p\<in>set xs. ratio truediv p \<le> ratio truediv (xs ! i)"
      and fst: "\<forall>j<i. ratio truediv (xs ! j) < ratio truediv (xs ! i)"
      by blast
    show ?thesis
    proof (cases "ratio truediv x > ratio truediv (xs ! i)")
      case True
      have a: "first_best truediv (xs @ [x]) = Some ((xs @ [x]) ! length xs)"
        using True fb by (simp add: first_best_snoc keep_step_def)
      have b: "\<forall>p\<in>set (xs @ [x]). ratio truediv p \<le> ratio truediv ((xs @ [x]) ! length xs)"
        using True mx by fastforce
      have c: "\<forall>j<length xs. ratio truediv ((xs @ [x]) ! j) < ratio truediv ((xs @ [x]) ! length xs)"
      proof (intro allI impI)
        fix j assume j: "j < length xs"
        then have "ratio truediv (xs ! j) \<le> ratio truediv (xs ! i)" using mx by simp
        with True j show "ratio truediv ((xs @ [x]) ! j) < ratio truediv ((xs @ [x]) ! length xs)"
          by (simp add: nth_append)
      qed
      from a b c show ?thesis
        by (intro exI [of _ "length xs"]) simp
    next
      case False
      have a: "first_best truediv (xs @ [x]) = Some ((xs @ [x]) ! i)"
        using False fb i by (simp add: first_best_snoc keep_step_def nth_append)
      have b: "\<forall>p\<in>set (xs @ [x]). ratio truediv p \<le> ratio truediv ((xs @ [x]) ! i)"
        using False mx i by (auto simp: nth_append)
      have c: "\<forall>j<i. ratio truediv ((xs @ [x]) ! j) < ratio truediv ((xs @ [x]) ! i)"
        using fst i by (simp add: nth_append)
      from a b c i show ?thesis
        by (intro exI [of _ i]) simp
    qed
  qed
qed

lemma get_last_and_best_best:
  assumes "load_scores w = Inr h" and "get_last_and_best truediv ids w = Inr r"
  shows "best_in r k = first_best truediv (entries_of k h)"
  using assms scan_history_best [of truediv h "init_stats ids" r k]
  by (simp add: get_last_and_best_def first_best_def)

lemma get_last_and_best_returns:
  assumes "load_scores w = Inr h" and "\<forall>e\<in>set h. entry_total e \<noteq> 0"
  shows "\<exists>r. get_last_and_best truediv ids w = Inr r"
  using assms scan_history_returns [of h "init_stats ids" truediv]
  by (simp add: get_last_and_best_def)

section \<open>Claims on the score history\<close>

text \<open>
  The best score on a history in which no entry has total 0: for every key \<open>k\<close> with
  at least one entry, \<open>get_last_and_best\<close> returns, and the best pair it holds for
  \<open>k\<close> is the \<open>(score, total)\<close> pair of an actual entry for \<open>k\<close> (the one at
  position \<open>i\<close> among the entries of \<open>k\<close>), its ratio is greater than or equal to
  the ratio of every entry for \<open>k\<close>, and every earlier entry for \<open>k\<close> has a
  strictly smaller ratio: of several entries with the maximal ratio the earliest is kept.
\<close>

lemma best_is_first_maximal_ratio:
  assumes "load_scores w = Inr h"
    and "\<forall>e\<in>set h. entry_total e \<noteq> 0"
    and "entries_of k h \<noteq> []"
  shows "\<exists>r st i. get_last_and_best truediv ids w = Inr r
           \<and> map_of r k = Some st
           \<and> i < length (entries_of k h)
           \<and> stat_best st = Some (entries_of k h ! i)
           \<and> (\<forall>p\<in>set (entries_of k h). ratio truediv p \<le> ratio truediv (entries_of k h ! i))
           \<and> (\<forall>j<i. ratio truediv (entries_of k h ! j) < ratio truediv (entries_of k h ! i))"
proof -
  from get_last_and_best_returns [OF assms(1,2)]
  obtain r where r: "get_last_and_best truediv ids w = Inr r" by blast
  from first_best_props [OF assms(3), of truediv]
  obtain i where i: "i < length (entries_of k h)"
    and fb: "first_best truediv (entries_of k h) = Some (entries_of k h ! i)"
    and mx: "\<forall>p\<in>set (entries_of k h). ratio truediv p \<le> ratio truediv (entries_of k h ! i)"
    and ft: "\<forall>j<i. ratio truediv (entries_of k h ! j) < ratio truediv (entries_of k h ! i)"
    by blast
  from get_last_and_best_best [OF assms(1) r, of k] fb
  have "best_in r k = Some (entries_of k h ! i)" by simp
  then obtain st where "map_of r k = Some st" "stat_best st = Some (entries_of k h ! i)"
    by (auto simp: best_in_def split: option.splits)
  with r i mx ft show ?thesis by blast
qed

lemma best_is_first_maximal_ratio_example:
  "load_scores (world_with history_example) = Inr history_example
   \<and> (\<forall>e\<in>set history_example. entry_total e \<noteq> 0)
   \<and> entries_of ''s1'' history_example = [(1, 2), (3, 4), (6, 8), (1, 4)]
   \<and> (\<exists>r st. get_last_and_best rat_div [''s1'', ''s2''] (world_with history_example) = Inr r
         \<and> map_of r ''s1'' = Some st \<and> stat_best st = Some (3, 4))"
proof -
  let ?ps = "[(1, 2), (3, 4), (6, 8), (1, 4)] :: (int \<times> int) list"
  have l: "load_scores (world_with history_example) = Inr history_example"
    by (simp add: load_scores_def world_with_def)
  have t: "\<forall>e\<in>set history_example. entry_total e \<noteq> 0"
    by (simp add: history_example_def mk_entry_def)
  have e: "entries_of ''s1'' history_example = ?ps"
    by (simp add: entries_of_def history_example_def mk_entry_def)
  then have ne: "entries_of ''s1'' history_example \<noteq> []" by simp
  from best_is_first_maximal_ratio [OF l t ne, of rat_div "[''s1'', ''s2'']"]
  obtain r st i where r: "get_last_and_best rat_div [''s1'', ''s2''] (world_with history_example) = Inr r"
    and st: "map_of r ''s1'' = Some st"
    and i: "i < length ?ps"
    and b: "stat_best st = Some (?ps ! i)"
    and mx: "\<forall>p\<in>set ?ps. ratio rat_div p \<le> ratio rat_div (?ps ! i)"
    and ft: "\<forall>j<i. ratio rat_div (?ps ! j) < ratio rat_div (?ps ! i)"
    unfolding e by blast
  from i have "i = 0 \<or> i = 1 \<or> i = 2 \<or> i = 3" by auto
  then have "i = 1"
  proof (elim disjE)
    assume "i = 0"
    with mx show ?thesis by (simp add: ratio_def rat_div_def)
  next
    assume "i = 1"
    then show ?thesis .
  next
    assume "i = 2"
    with ft have "(1::nat) < 2 \<longrightarrow> ratio rat_div (?ps ! 1) < ratio rat_div (?ps ! 2)" by blast
    then show ?thesis by (simp add: ratio_def rat_div_def)
  next
    assume "i = 3"
    with mx show ?thesis by (simp add: ratio_def rat_div_def)
  qed
  with b have "stat_best st = Some (3, 4)" by simp
  with l t e r st show ?thesis by blast
qed

text \<open>
  Claim C2. The claim is that for every score history and every key with at least one
  entry the best score is an entry of that key with the maximal ratio, the earliest
  such. On histories without a zero total this is what the code computes (the lemma
  \<open>best_is_first_maximal_ratio\<close>). On a history with zero totals it is not: here the
  key \<open>s1\<close> has one ordinary entry, the key \<open>s2\<close> has two entries of total 0, the
  scan raises \<open>ZeroDivisionError\<close> at the second of them, and no best score is
  computed for \<open>s1\<close>.
\<close>

theorem best_lost_when_scan_raises:
  "entries_of ''s1'' [mk_entry ''s1'' 1 2, mk_entry ''s2'' 0 0, mk_entry ''s2'' 0 0] = [(1, 2)]
   \<and> get_last_and_best rat_div [''s1'', ''s2'']
         (world_with [mk_entry ''s1'' 1 2, mk_entry ''s2'' 0 0, mk_entry ''s2'' 0 0])
       = Inl ZeroDivisionError"
  by (simp add: get_last_and_best_def load_scores_def world_with_def mk_entry_def
        init_stats_def Let_def entries_of_def)

text \<open>
  Claim C3. The claim is that computing the last and best scores never divides by
  zero, also on a history with an entry whose total is 0. The code has no such guard:
  on the history that two runs of a set without questions leave behind (score 0 of
  total 0, twice under one key), the comparison for the second entry evaluates
  \<open>0 / 0\<close> and \<open>get_last_and_best\<close> raises \<open>ZeroDivisionError\<close>.
\<close>

theorem get_last_and_best_divides_by_zero:
  "get_last_and_best rat_div [''s1'']
     (world_with [mk_entry ''s1'' 0 0, mk_entry ''s1'' 0 0]) = Inl ZeroDivisionError"
  by (simp add: get_last_and_best_def load_scores_def world_with_def mk_entry_def
        init_stats_def Let_def)

text \<open>
  Claim C6. The score history is append-only: whatever history \<open>h\<close> is loaded before,
  \<open>save_score\<close> returns and leaves the file holding the object whose history is \<open>h\<close>
  followed by exactly one new entry with the given set id, title, score, total and
  date, so that the prior entries are unchanged in content and order; standard input
  and output are not touched.
\<close>

theorem save_score_appends_one_entry:
  assumes "load_scores w = Inr h"
  shows "\<exists>w'. save_score sid title s t now w = Inr w'
           \<and> scores_file w' = Json (Object (Some (h @
                [\<lparr>entry_set_id = sid, entry_set_title = title, entry_score = s,
                  entry_total = t, entry_date = now\<rparr>])))
           \<and> load_scores w' = Inr (h @
                [\<lparr>entry_set_id = sid, entry_set_title = title, entry_score = s,
                  entry_total = t, entry_date = now\<rparr>])
           \<and> stdin w' = stdin w \<and> stdout w' = stdout w"
  using assms by (simp add: save_score_def load_scores_def)

theorem save_score_appends_one_entry_witness:
  "load_scores (world_with history_example) = Inr history_example
   \<and> (\<exists>w'. save_score ''s2'' ''Set'' 4 5 ''2024-05-02T09:30:00'' (world_with history_example) = Inr w'
         \<and> load_scores w' = Inr (history_example @
              [\<lparr>entry_set_id = ''s2'', entry_set_title = ''Set'', entry_score = 4,
                entry_total = 5, entry_date = ''2024-05-02T09:30:00''\<rparr>]))"
proof -
  have l: "load_scores (world_with history_example) = Inr history_example"
    by (simp add: load_scores_def world_with_def)
  from save_score_appends_one_entry [OF l, of "''s2''" "''Set''" 4 5 "''2024-05-02T09:30:00''"] l
  show ?thesis by blast
qed

text \<open>
  The cases in which loading the score history does not raise: a missing file,
  contents with invalid syntax and a file that cannot be read each give the empty
  history; an object with a history list gives exactly that list, and an object
  without the key gives the empty history.
\<close>

lemma load_scores_permissive:
  "load_scores (w\<lparr>scores_file := Missing\<rparr>) = Inr []
   \<and> load_scores (w\<lparr>scores_file := Invalid_syntax\<rparr>) = Inr []
   \<and> load_scores (w\<lparr>scores_file := Unreadable\<rparr>) = Inr []
   \<and> load_scores (w\<lparr>scores_file := Json (Object (Some h))\<rparr>) = Inr h
   \<and> load_scores (w\<lparr>scores_file := Json (Object None)\<rparr>) = Inr []"
  by (simp add: load_scores_def)

text \<open>
  Claim C8. The claim is that loading the score history never aborts the run, corrupt
  contents giving the empty history. The \<open>except\<close> clause of \<open>load_scores\<close> catches
  \<open>JSONDecodeError\<close> and \<open>IOError\<close> only. A score file whose contents are a valid
  document that is not an object (\<open>[]\<close>, say) passes \<open>json.load\<close>, and
  \<open>data.get\<close> then raises \<open>AttributeError\<close>; a score file whose bytes are not UTF-8
  raises \<open>UnicodeDecodeError\<close> while it is read. Neither is caught, so
  \<open>load_scores\<close> raises on both.
\<close>

theorem load_scores_raises_on_corrupt_contents:
  "load_scores \<lparr>stdin = [], stdout = [], scores_file = Json Not_object\<rparr> = Inl AttributeError
   \<and> load_scores \<lparr>stdin = [], stdout = [], scores_file = Invalid_encoding\<rparr>
       = Inl UnicodeDecodeError"
  by (simp add: load_scores_def)

section \<open>Properties of the presenter\<close>

lemma print_simps [simp]:
  "stdin (print e w) = stdin w"
  "stdout (print e w) = stdout w @ [e]"
  "scores_file (print e w) = scores_file w"
  by (simp_all add: print_def)

lemma input_Inr:
  "input p w = Inr (l, w') \<longleftrightarrow>
     stdin w = l # stdin w' \<and> w' = w\<lparr>stdin := stdin w', stdout := stdout w @ [Prompt p]\<rparr>"
  by (cases "stdin w") (auto simp: input_def)

lemma input_Nil: "stdin w = [] \<Longrightarrow> input p w = Inl EOFError"
  by (simp add: input_def)

lemma input_Cons:
  "stdin w = l # ls \<Longrightarrow> input p w = Inr (l, w\<lparr>stdin := ls, stdout := stdout w @ [Prompt p]\<rparr>)"
  by (simp add: input_def)

lemma question_texts_append [simp]:
  "question_texts (xs @ ys) = question_texts xs @ question_texts ys"
  by (induction xs rule: question_texts.induct) simp_all

lemma question_texts_option_lines [simp]: "question_texts (option_lines opts) = []"
  by (induction opts) (auto simp: option_lines_def)

lemma fold_print_options:
  "fold (\<lambda>(label, option). print (Option_line label option)) opts w
     = w\<lparr>stdout := stdout w @ option_lines opts\<rparr>"
  by (induction opts arbitrary: w) (auto simp: option_lines_def print_def)

lemma question_texts_reprompts [simp]: "question_texts (reprompts rs) = []"
  by (induction rs) (simp_all add: reprompts_def)

lemma choice_loop_accepts:
  assumes "stdin w = rejected @ l # ls"
    and "\<forall>r\<in>set rejected. \<not> accepted opts r"
    and "accepted opts l"
  shows "choice_loop opts w =
           Inr (str_lower (str_strip l),
                w\<lparr>stdin := ls,
                  stdout := stdout w @ reprompts rejected @ [Prompt ''Your choice (a/b/c/d): '']\<rparr>)"
  using assms
proof (induction rejected arbitrary: w)
  case Nil
  then show ?case
    by (subst choice_loop.simps) (simp add: input_Cons accepted_def reprompts_def)
next
  case (Cons r rejected)
  let ?w1 = "w\<lparr>stdin := rejected @ l # ls,
                stdout := stdout w @ [Prompt ''Your choice (a/b/c/d): '']\<rparr>"
  have i: "input ''Your choice (a/b/c/d): '' w = Inr (r, ?w1)"
    using Cons.prems(1) by (simp add: input_Cons)
  have r: "str_lower (str_strip r) \<notin> fst ` set opts"
    using Cons.prems(2) by (simp add: accepted_def)
  have "choice_loop opts w = choice_loop opts (print Please_type ?w1)"
    using r by (subst choice_loop.simps) (simp add: i)
  also have "\<dots> = Inr (str_lower (str_strip l),
       (print Please_type ?w1)\<lparr>stdin := ls,
          stdout := stdout (print Please_type ?w1) @ reprompts rejected
                      @ [Prompt ''Your choice (a/b/c/d): '']\<rparr>)"
    using Cons.prems by (intro Cons.IH) simp_all
  finally show ?case by (simp add: print_def reprompts_def)
qed

lemma choice_loop_rejects_all:
  "\<forall>r\<in>set (stdin w). \<not> accepted opts r \<Longrightarrow> choice_loop opts w = Inl EOFError"
proof (induction "stdin w" arbitrary: w)
  case Nil
  then show ?case by (subst choice_loop.simps) (simp add: input_Nil)
next
  case (Cons r rs)
  let ?w1 = "w\<lparr>stdin := rs, stdout := stdout w @ [Prompt ''Your choice (a/b/c/d): '']\<rparr>"
  have i: "input ''Your choice (a/b/c/d): '' w = Inr (r, ?w1)"
    using Cons.hyps(2) by (simp add: input_Cons)
  have r: "str_lower (str_strip r) \<notin> fst ` set opts"
    using Cons.prems Cons.hyps(2) [symmetric] by (simp add: accepted_def)
  have "choice_loop opts w = choice_loop opts (print Please_type ?w1)"
    using r by (subst choice_loop.simps) (simp add: i)
  also have "\<dots> = Inl EOFError"
    using Cons.prems Cons.hyps(2) [symmetric] by (intro Cons.hyps(1)) simp_all
  finally show ?case .
qed

text \<open>
  Every outcome of the loop: the lines before the first accepted one are each
  answered by the hint, and the first accepted line, trimmed and lower-cased, is the
  choice; when no line is accepted the input runs out.
\<close>

lemma choice_loop_eq:
  "choice_loop opts w =
     (case dropWhile (\<lambda>r. \<not> accepted opts r) (stdin w) of
        [] \<Rightarrow> Inl EOFError
      | l # ls \<Rightarrow>
          Inr (str_lower (str_strip l),
               w\<lparr>stdin := ls,
                 stdout := stdout w @ reprompts (takeWhile (\<lambda>r. \<not> accepted opts r) (stdin w))
                             @ [Prompt ''Your choice (a/b/c/d): '']\<rparr>))"
proof (cases "dropWhile (\<lambda>r. \<not> accepted opts r) (stdin w)")
  case Nil
  then have "\<forall>r\<in>set (stdin w). \<not> accepted opts r" by (simp only: dropWhile_eq_Nil_conv)
  then show ?thesis using Nil by (simp only: choice_loop_rejects_all list.case)
next
  case (Cons l ls)
  let ?rej = "takeWhile (\<lambda>r. \<not> accepted opts r) (stdin w)"
  have s: "stdin w = ?rej @ l # ls"
    using takeWhile_dropWhile_id [of "\<lambda>r. \<not> accepted opts r" "stdin w"] Cons by simp
  have a: "accepted opts l"
    using hd_dropWhile [of "\<lambda>r. \<not> accepted opts r" "stdin w"] Cons by simp
  have n: "\<forall>r\<in>set ?rej. \<not> accepted opts r" by (auto dest: set_takeWhileD)
  show ?thesis using choice_loop_accepts [OF s n a] Cons by (simp only: list.case)
qed

lemma choice_loop_frame:
  assumes "choice_loop opts w = Inr (ua, w')"
  shows "scores_file w' = scores_file w
         \<and> question_texts (stdout w') = question_texts (stdout w)
         \<and> ua \<in> fst ` set opts"
proof (cases "dropWhile (\<lambda>r. \<not> accepted opts r) (stdin w)")
  case Nil
  with assms show ?thesis by (simp add: choice_loop_eq del: dropWhile_eq_Nil_conv)
next
  case (Cons l ls)
  have a: "accepted opts l"
    using hd_dropWhile [of "\<lambda>r. \<not> accepted opts r" "stdin w"] Cons by simp
  from assms Cons a show ?thesis by (auto simp: choice_loop_eq accepted_def)
qed

lemma ask_mc_question_fields:
  assumes "q_question q = Some t" and "q_options q = Some opts"
    and "q_correct_option q = Some co" and "q_explanation q = Some ex"
  shows "ask_mc_question q n tot w =
     (case choice_loop opts
             ((print (Question_text t) (print (Question_header n tot) w))
                \<lparr>stdout := stdout w @ [Question_header n tot, Question_text t]
                             @ option_lines opts\<rparr>) of
        Inl e \<Rightarrow> Inl e
      | Inr (ua, w4) \<Rightarrow>
          if ua = co then Inr (True, print (Explanation ex) (print Correct w4))
          else (case map_of opts co of
                  None \<Rightarrow> Inl KeyError
                | Some ct \<Rightarrow>
                    Inr (False, print (Explanation ex) (print (Incorrect_mc co ct) w4))))"
  using assms
  by (simp add: ask_mc_question_def Let_def fold_print_options
           split: sum.splits prod.splits option.splits)

lemma ask_mc_question_Inr_fields:
  assumes "ask_mc_question q n tot w = Inr (c, w')"
  shows "\<exists>t opts co ex. q_question q = Some t \<and> q_options q = Some opts
           \<and> q_correct_option q = Some co \<and> q_explanation q = Some ex"
proof -
  from assms obtain t where t: "q_question q = Some t"
    by (cases "q_question q") (simp_all add: ask_mc_question_def Let_def)
  from assms t obtain opts where o: "q_options q = Some opts"
    by (cases "q_options q") (simp_all add: ask_mc_question_def Let_def)
  from assms t o obtain co where co: "q_correct_option q = Some co"
    by (cases "q_correct_option q")
       (simp_all add: ask_mc_question_def Let_def split: sum.splits prod.splits)
  from assms t o co obtain ex where "q_explanation q = Some ex"
    by (cases "q_explanation q")
       (simp_all add: ask_mc_question_def Let_def split: sum.splits prod.splits option.splits if_splits)
  with t o co show ?thesis by blast
qed

lemma ask_mc_question_frame:
  assumes "ask_mc_question q n tot w = Inr (c, w')"
  shows "scores_file w' = scores_file w
         \<and> (\<exists>t. q_question q = Some t
               \<and> question_texts (stdout w') = question_texts (stdout w) @ [t])"
proof -
  from ask_mc_question_Inr_fields [OF assms] obtain t opts co ex
    where f: "q_question q = Some t" "q_options q = Some opts"
      "q_correct_option q = Some co" "q_explanation q = Some ex"
    by blast
  let ?w3 = "(print (Question_text t) (print (Question_header n tot) w))
               \<lparr>stdout := stdout w @ [Question_header n tot, Question_text t]
                            @ option_lines opts\<rparr>"
  show ?thesis
  proof (cases "choice_loop opts ?w3")
    case (Inl e)
    with assms show ?thesis unfolding ask_mc_question_fields [OF f] by simp
  next
    case (Inr p)
    obtain ua w4 where p: "p = (ua, w4)" by (cases p)
    have cl: "choice_loop opts ?w3 = Inr (ua, w4)" using Inr p by simp
    from choice_loop_frame [OF cl]
    have a: "scores_file w4 = scores_file w"
      and b: "question_texts (stdout w4) = question_texts (stdout w) @ [t]"
      by simp_all
    from assms
    have "(if ua = co then Inr (True, print (Explanation ex) (print Correct w4))
           else (case map_of opts co of
                   None \<Rightarrow> Inl KeyError
                 | Some ct \<Rightarrow>
                     Inr (False, print (Explanation ex) (print (Incorrect_mc co ct) w4))))
          = Inr (c, w')"
      unfolding ask_mc_question_fields [OF f] cl by simp
    then have "w' = print (Explanation ex) (print Correct w4)
               \<or> (\<exists>ct. w' = print (Explanation ex) (print (Incorrect_mc co ct) w4))"
      by (cases "ua = co"; cases "map_of opts co") auto
    with a b f(1) show ?thesis by auto
  qed
qed

lemma ask_open_question_frame:
  assumes "ask_open_question q n tot w = Inr (c, w')"
  shows "scores_file w' = scores_file w
         \<and> question_texts (stdout w') = question_texts (stdout w) @ [open_text q]"
proof (cases "stdin (print (Question_text (open_text q)) (print (Question_header n tot) w))")
  case Nil
  then have "input ''Your answer: ''
               (print (Question_text (open_text q)) (print (Question_header n tot) w))
             = Inl EOFError"
    by (rule input_Nil)
  with assms show ?thesis by (simp add: ask_open_question_def Let_def)
next
  case (Cons l ls)
  from input_Cons [OF Cons, of "''Your answer: ''"] assms show ?thesis
    by (auto simp: ask_open_question_def Let_def split: option.splits if_splits)
qed

lemma ask_question_frame:
  assumes "ask_question strict q n tot w = Inr (c, w')"
  shows "scores_file w' = scores_file w
         \<and> question_texts (stdout w') = question_texts (stdout w) @ [shown_text q]"
proof (cases "q_type q = Some ''mc''")
  case True
  with assms have "ask_mc_question q n tot w = Inr (c, w')"
    by (simp add: ask_question_def)
  from ask_mc_question_frame [OF this] True show ?thesis
    by (auto simp: shown_text_def)
next
  case False
  with assms have "ask_open_question q n tot w = Inr (c, w')"
    by (auto simp: ask_question_def split: option.splits if_splits)
  from ask_open_question_frame [OF this] False show ?thesis
    by (simp add: shown_text_def)
qed

section \<open>Properties of the runners\<close>

lemma ask_each_result:
  assumes "ask_each strict qs i tot score wrong w = Inr ((score', wrong'), w')"
  shows "\<exists>new. wrong' = wrong @ new
           \<and> score' + length new = score + length qs
           \<and> sorted_wrt (<) new
           \<and> (\<forall>j\<in>set new. i \<le> j \<and> j < i + length qs)
           \<and> scores_file w' = scores_file w
           \<and> question_texts (stdout w') = question_texts (stdout w) @ map shown_text qs"
  using assms
proof (induction qs arbitrary: i score wrong w)
  case Nil
  then show ?case by simp
next
  case (Cons q qs)
  from Cons.prems obtain c w1 where a: "ask_question strict q (i + 1) tot w = Inr (c, w1)"
    and rest: "ask_each strict qs (i + 1) tot (if c then score + 1 else score)
                 (if c then wrong else wrong @ [i]) w1 = Inr ((score', wrong'), w')"
    by (auto split: sum.splits if_splits)
  from ask_question_frame [OF a]
  have f: "scores_file w1 = scores_file w"
    and t: "question_texts (stdout w1) = question_texts (stdout w) @ [shown_text q]"
    by simp_all
  from Cons.IH [OF rest] obtain new
    where w: "wrong' = (if c then wrong else wrong @ [i]) @ new"
      and s: "score' + length new = (if c then score + 1 else score) + length qs"
      and so: "sorted_wrt (<) new"
      and r: "\<forall>j\<in>set new. i + 1 \<le> j \<and> j < i + 1 + length qs"
      and f': "scores_file w' = scores_file w1"
      and t': "question_texts (stdout w') = question_texts (stdout w1) @ map shown_text qs"
    by blast
  show ?case
  proof (cases c)
    case True
    with w s so r f f' t t' show ?thesis
      by (intro exI [of _ new]) auto
  next
    case False
    have "sorted_wrt (<) (i # new)" using so r by auto
    with False w s r f f' t t' show ?thesis
      by (intro exI [of _ "i # new"]) auto
  qed
qed

lemma pick_Inr:
  "pick qs is = Inr xs \<Longrightarrow> (\<forall>i\<in>set is. i < length qs) \<and> xs = map (\<lambda>i. qs ! i) is"
  by (induction "is" arbitrary: xs) (auto split: if_splits sum.splits)

lemma pick_valid: "\<forall>i\<in>set is. i < length qs \<Longrightarrow> pick qs is = Inr (map (\<lambda>i. qs ! i) is)"
  by (induction "is") auto

lemma retry_each_frame:
  assumes "retry_each qs i tot w = Inr w'"
  shows "scores_file w' = scores_file w
         \<and> question_texts (stdout w') = question_texts (stdout w) @ map shown_text qs"
  using assms
proof (induction qs arbitrary: i w)
  case Nil
  then show ?case by simp
next
  case (Cons q qs)
  from Cons.prems obtain c w1 where a: "ask_question True q (i + 1) tot w = Inr (c, w1)"
    and rest: "retry_each qs (i + 1) tot w1 = Inr w'"
    by (auto split: sum.splits)
  from ask_question_frame [OF a] Cons.IH [OF rest] show ?case by simp
qed

lemma retry_wrong_frame:
  assumes "retry_wrong qs wrong title w = Inr w'"
  shows "scores_file w' = scores_file w
         \<and> question_texts (stdout w') =
             question_texts (stdout w) @ map (\<lambda>i. shown_text (qs ! i)) wrong"
proof (cases "wrong = []")
  case True
  with assms show ?thesis by (simp add: retry_wrong_def)
next
  case False
  with assms obtain to_retry w2 where p: "pick qs wrong = Inr to_retry"
    and r: "retry_each to_retry 0 (length to_retry)
              (print (Banner (rule_line CHR ''-''))
                 (print (Banner ''Retry: questions you got wrong'')
                    (print (Banner (CHR 0x0A # rule_line CHR ''-'')) w))) = Inr w2"
    and w': "w' = print (Retry_complete (length to_retry)) w2"
    by (auto simp: retry_wrong_def Let_def split: sum.splits)
  from pick_Inr [OF p] have "to_retry = map (\<lambda>i. qs ! i) wrong" by simp
  with retry_each_frame [OF r] w' show ?thesis by (simp add: comp_def)
qed

lemma run_set_result:
  assumes "run_set random_shuffle questions title shuffle max_questions w
             = Inr ((score, tot, wrong, used), w')"
  shows "tot = length used
         \<and> score + length wrong = tot
         \<and> sorted_wrt (<) wrong
         \<and> (\<forall>j\<in>set wrong. j < tot)
         \<and> scores_file w' = scores_file w
         \<and> question_texts (stdout w') = question_texts (stdout w) @ map shown_text used
         \<and> used = (let qs0 = (if shuffle then random_shuffle questions else questions)
                   in case max_questions of
                        None \<Rightarrow> qs0
                      | Some m \<Rightarrow> if m < int (length qs0) then slice_to qs0 m else qs0)"
proof -
  let ?qs0 = "if shuffle then random_shuffle questions else questions"
  let ?qs = "case max_questions of
               None \<Rightarrow> ?qs0
             | Some m \<Rightarrow> if m < int (length ?qs0) then slice_to ?qs0 m else ?qs0"
  let ?w1 = "print (Banner (rule_line CHR ''='')) (print (Banner title)
               (print (Banner (CHR 0x0A # rule_line CHR ''='')) w))"
  from assms
  have "(case ask_each True ?qs 0 (length ?qs) 0 [] ?w1 of
           Inl e \<Rightarrow> Inl e
         | Inr ((score, wrong_indices), w2) \<Rightarrow> Inr ((score, length ?qs, wrong_indices, ?qs), w2))
        = Inr ((score, tot, wrong, used), w')"
    by (simp add: run_set_def Let_def)
  then have u: "used = ?qs" and tt: "tot = length ?qs"
    and a: "ask_each True ?qs 0 (length ?qs) 0 [] ?w1 = Inr ((score, wrong), w')"
    by (cases "ask_each True ?qs 0 (length ?qs) 0 [] ?w1"; auto)+
  from ask_each_result [OF a]
  have "score + length wrong = length ?qs" "sorted_wrt (<) wrong"
    "\<forall>j\<in>set wrong. j < length ?qs" "scores_file w' = scores_file w"
    "question_texts (stdout w') = question_texts (stdout w) @ map shown_text ?qs"
    by auto
  with u tt show ?thesis by (simp add: Let_def)
qed

lemma run_practice_section_result:
  assumes "run_practice_section section_title questions w
             = Inr ((score, tot, wrong, used), w')"
  shows "tot = length used
         \<and> score + length wrong = tot
         \<and> sorted_wrt (<) wrong
         \<and> (\<forall>j\<in>set wrong. j < tot)
         \<and> scores_file w' = scores_file w
         \<and> question_texts (stdout w') = question_texts (stdout w) @ map shown_text used
         \<and> used = questions"
proof -
  let ?w1 = "print (Banner (rule_line CHR ''='')) (print (Banner (''  '' @ section_title))
               (print (Banner (CHR 0x0A # rule_line CHR ''='')) w))"
  from assms
  have "(case ask_each False questions 0 (length questions) 0 [] ?w1 of
           Inl e \<Rightarrow> Inl e
         | Inr ((score, wrong_indices), w2) \<Rightarrow>
             Inr ((score, length questions, wrong_indices, questions), w2))
        = Inr ((score, tot, wrong, used), w')"
    by (simp add: run_practice_section_def Let_def)
  then have u: "used = questions" and tt: "tot = length questions"
    and a: "ask_each False questions 0 (length questions) 0 [] ?w1 = Inr ((score, wrong), w')"
    by (cases "ask_each False questions 0 (length questions) 0 [] ?w1"; auto)+
  from ask_each_result [OF a]
  have "score + length wrong = length questions" "sorted_wrt (<) wrong"
    "\<forall>j\<in>set wrong. j < length questions" "scores_file w' = scores_file w"
    "question_texts (stdout w') = question_texts (stdout w) @ map shown_text questions"
    by auto
  with u tt show ?thesis by simp
qed

section \<open>Claims on the presenter and the runners\<close>

text \<open>
  Claim C7, as amended. For every multiple-choice question that has its fields and whose
  \<open>correct_option\<close> is one of its labels: each typed line that, trimmed and
  lower-cased, is not exactly one of the labels is answered by the hint and a new
  prompt; the first line that is, ends the loop, and that trimmed, lower-cased line is
  the choice; the answer is reported correct if and only if the choice equals
  \<open>correct_option\<close>; and the explanation is the last thing printed, whether the
  answer was correct or not.
\<close>

theorem ask_mc_question_reprompts_until_accepted:
  assumes "q_question q = Some t" and "q_options q = Some opts"
    and "q_correct_option q = Some co" and "q_explanation q = Some ex"
    and "map_of opts co = Some ct"
    and "stdin w = rejected @ l # ls"
    and "\<forall>r\<in>set rejected. \<not> accepted opts r"
    and "accepted opts l"
  shows "ask_mc_question q n tot w =
           Inr (str_lower (str_strip l) = co,
                w\<lparr>stdin := ls,
                  stdout := stdout w @ [Question_header n tot, Question_text t]
                    @ option_lines opts @ reprompts rejected
                    @ [Prompt ''Your choice (a/b/c/d): '',
                       if str_lower (str_strip l) = co then Correct else Incorrect_mc co ct,
                       Explanation ex]\<rparr>)"
proof -
  let ?w3 = "(print (Question_text t) (print (Question_header n tot) w))
               \<lparr>stdout := stdout w @ [Question_header n tot, Question_text t]
                            @ option_lines opts\<rparr>"
  have "stdin ?w3 = rejected @ l # ls" using assms(6) by simp
  from choice_loop_accepts [OF this assms(7,8)]
  have "choice_loop opts ?w3 =
          Inr (str_lower (str_strip l),
               ?w3\<lparr>stdin := ls,
                    stdout := stdout ?w3 @ reprompts rejected
                                @ [Prompt ''Your choice (a/b/c/d): '']\<rparr>)" .
  then show ?thesis
    unfolding ask_mc_question_fields [OF assms(1-4)]
    using assms(5) by (simp add: print_def)
qed

theorem ask_mc_question_reprompts_until_accepted_witness:
  "stdin (world_in [''x'', ''c'', '' B '', ''a'']) = [''x'', ''c''] @ '' B '' # [''a'']
   \<and> \<not> accepted [(''a'', ''go''), (''b'', ''goes'')] ''x''
   \<and> \<not> accepted [(''a'', ''go''), (''b'', ''goes'')] ''c''
   \<and> accepted [(''a'', ''go''), (''b'', ''goes'')] '' B ''
   \<and> ask_mc_question q_mc 1 1 (world_in [''x'', ''c'', '' B '', ''a'']) =
       Inr (True,
            \<lparr>stdin = [''a''],
             stdout = [Question_header 1 1, Question_text ''She ___ to school.'',
                       Option_line ''a'' ''go'', Option_line ''b'' ''goes'',
                       Prompt ''Your choice (a/b/c/d): '', Please_type,
                       Prompt ''Your choice (a/b/c/d): '', Please_type,
                       Prompt ''Your choice (a/b/c/d): '', Correct,
                       Explanation ''Third person singular.''],
             scores_file = Missing\<rparr>)"
proof -
  let ?opts = "[(''a'', ''go''), (''b'', ''goes'')]"
  have s: "stdin (world_in [''x'', ''c'', '' B '', ''a'']) = [''x'', ''c''] @ '' B '' # [''a'']"
    by (simp add: world_in_def)
  have x: "\<not> accepted ?opts ''x''" "\<not> accepted ?opts ''c''" by code_simp+
  then have r: "\<forall>r\<in>set [''x'', ''c'']. \<not> accepted ?opts r" by simp
  have a: "accepted ?opts '' B ''" by code_simp
  have b: "str_lower (str_strip '' B '') = ''b''" by code_simp
  have f: "q_question q_mc = Some ''She ___ to school.''" "q_options q_mc = Some ?opts"
    "q_correct_option q_mc = Some ''b''" "q_explanation q_mc = Some ''Third person singular.''"
    by (simp_all add: q_mc_def)
  have m: "map_of ?opts ''b'' = Some ''goes''" by simp
  from ask_mc_question_reprompts_until_accepted [OF f m s r a, of 1 1]
  have "ask_mc_question q_mc 1 1 (world_in [''x'', ''c'', '' B '', ''a'']) =
       Inr (True,
            \<lparr>stdin = [''a''],
             stdout = [Question_header 1 1, Question_text ''She ___ to school.'',
                       Option_line ''a'' ''go'', Option_line ''b'' ''goes'',
                       Prompt ''Your choice (a/b/c/d): '', Please_type,
                       Prompt ''Your choice (a/b/c/d): '', Please_type,
                       Prompt ''Your choice (a/b/c/d): '', Correct,
                       Explanation ''Third person singular.''],
             scores_file = Missing\<rparr>)"
    by (simp add: b world_in_def option_lines_def reprompts_def)
  with s x a show ?thesis by blast
qed

text \<open>
  Counterexample to claim C7 as first stated: the labels of this question are \<open>A\<close>
  and \<open>B\<close>; the user types the valid label \<open>A\<close>, then \<open>a\<close>; neither line is
  accepted, since the line is lower-cased and the labels are not, and the loop goes on
  prompting until the input ends.
\<close>

theorem uppercase_label_counterexample:
  "q_options q_upper = Some [(''A'', ''go''), (''B'', ''goes'')]
   \<and> ask_mc_question q_upper 1 1 (world_in [''A'', ''a'']) = Inl EOFError"
proof -
  have "q_options q_upper = Some [(''A'', ''go''), (''B'', ''goes'')]"
    by (simp add: q_upper_def)
  moreover have "ask_mc_question q_upper 1 1 (world_in [''A'', ''a'']) = Inl EOFError"
    by code_simp
  ultimately show ?thesis by simp
qed

text \<open>
  Claim C10. Whenever \<open>run_set\<close> or \<open>run_practice_section\<close> returns, the score plus
  the number of wrong indices is the total, the score is at most the total, the wrong
  indices are strictly increasing and each is below the total, and the total is the
  number of questions run: each question is counted once, as correct or as wrong.
\<close>

theorem runner_counts_each_question_once:
  "(run_set random_shuffle questions title shuffle max_questions w
      = Inr ((score, tot, wrong, used), w')
    \<longrightarrow> score + length wrong = tot \<and> score \<le> tot \<and> sorted_wrt (<) wrong
        \<and> (\<forall>j\<in>set wrong. j < tot) \<and> tot = length used)
   \<and> (run_practice_section section_title questions w = Inr ((score, tot, wrong, used), w')
    \<longrightarrow> score + length wrong = tot \<and> score \<le> tot \<and> sorted_wrt (<) wrong
        \<and> (\<forall>j\<in>set wrong. j < tot) \<and> tot = length used)"
proof (intro conjI impI)
  assume "run_set random_shuffle questions title shuffle max_questions w
            = Inr ((score, tot, wrong, used), w')"
  from run_set_result [OF this]
  have r: "tot = length used" "score + length wrong = tot" "sorted_wrt (<) wrong"
    "\<forall>j\<in>set wrong. j < tot"
    by blast+
  from r show "score + length wrong = tot" "sorted_wrt (<) wrong"
    "\<forall>j\<in>set wrong. j < tot" "tot = length used"
    by simp_all
  from r(2) show "score \<le> tot" by simp
next
  assume "run_practice_section section_title questions w = Inr ((score, tot, wrong, used), w')"
  from run_practice_section_result [OF this]
  have r: "tot = length used" "score + length wrong = tot" "sorted_wrt (<) wrong"
    "\<forall>j\<in>set wrong. j < tot"
    by blast+
  from r show "score + length wrong = tot" "sorted_wrt (<) wrong"
    "\<forall>j\<in>set wrong. j < tot" "tot = length used"
    by simp_all
  from r(2) show "score \<le> tot" by simp
qed

theorem runner_counts_each_question_once_witness:
  "(\<exists>w'. run_set rev [q_mc, q_open, q_sentence] ''Set 1'' False None
            (world_in [''x'', '' B '', ''twice'', ''i have  lived here'', ''went'', ''a''])
          = Inr ((2, 3, [1], [q_mc, q_open, q_sentence]), w'))
   \<and> (\<exists>w'. run_practice_section ''Gap fill'' [q_gap, q_mc]
            (world_in [''x'', '' B '', ''twice'', ''i have  lived here'', ''went'', ''a''])
          = Inr ((1, 2, [0], [q_gap, q_mc]), w'))
   \<and> (2::nat) + length [1::nat] = 3 \<and> (1::nat) + length [0::nat] = 2"
proof -
  let ?w = "world_in [''x'', '' B '', ''twice'', ''i have  lived here'', ''went'', ''a'']"
  have "map_sum id fst (run_set rev [q_mc, q_open, q_sentence] ''Set 1'' False None ?w)
          = Inr (2, 3, [1], [q_mc, q_open, q_sentence])"
    by code_simp
  then obtain w1 where a: "run_set rev [q_mc, q_open, q_sentence] ''Set 1'' False None ?w
          = Inr ((2, 3, [1], [q_mc, q_open, q_sentence]), w1)"
    by (cases "run_set rev [q_mc, q_open, q_sentence] ''Set 1'' False None ?w") auto
  have "map_sum id fst (run_practice_section ''Gap fill'' [q_gap, q_mc] ?w)
          = Inr (1, 2, [0], [q_gap, q_mc])"
    by code_simp
  then obtain w2 where b: "run_practice_section ''Gap fill'' [q_gap, q_mc] ?w
          = Inr ((1, 2, [0], [q_gap, q_mc]), w2)"
    by (cases "run_practice_section ''Gap fill'' [q_gap, q_mc] ?w") auto
  from a runner_counts_each_question_once
         [of rev "[q_mc, q_open, q_sentence]" "''Set 1''" False None ?w 2 3 "[1]"
             "[q_mc, q_open, q_sentence]" w1]
  have c: "(2::nat) + length [1::nat] = 3" by blast
  from b runner_counts_each_question_once
         [of _ "[q_gap, q_mc]" _ _ _ ?w 1 2 "[0]" "[q_gap, q_mc]" w2 "''Gap fill''"]
  have d: "(1::nat) + length [0::nat] = 2" by blast
  from a b c d show ?thesis by blast
qed

text \<open>
  Claim C4. Let \<open>random.shuffle\<close> leave a permutation of the list. Whenever
  \<open>run_set\<close> returns: with \<open>max_questions = N\<close> and \<open>N\<close> less than the number of
  questions, the questions run are the first \<open>N\<close> of the ordering (shuffled or not),
  the total is \<open>N\<close> and exactly \<open>N\<close> questions are presented; with \<open>max_questions\<close>
  absent, or at least the number of questions, all questions of the ordering are run
  and the total is their number. The texts presented are those of the questions run,
  in order.
\<close>

theorem run_set_presents_first_max_questions:
  assumes "mset (random_shuffle questions) = mset questions"
    and "run_set random_shuffle questions title shuffle max_questions w
           = Inr ((score, tot, wrong, used), w')"
  shows "(\<forall>N. max_questions = Some (int N) \<and> N < length questions \<longrightarrow>
            used = take N (if shuffle then random_shuffle questions else questions)
            \<and> tot = N \<and> length used = N)
         \<and> (max_questions = None \<or> (\<exists>m. max_questions = Some m \<and> int (length questions) \<le> m) \<longrightarrow>
            used = (if shuffle then random_shuffle questions else questions)
            \<and> tot = length questions)
         \<and> question_texts (stdout w') = question_texts (stdout w) @ map shown_text used"
proof -
  let ?qs0 = "if shuffle then random_shuffle questions else questions"
  have len: "length ?qs0 = length questions"
    using mset_eq_length [OF assms(1)] by simp
  from run_set_result [OF assms(2)]
  have t: "tot = length used"
    and q: "question_texts (stdout w') = question_texts (stdout w) @ map shown_text used"
    and u: "used = (case max_questions of
                      None \<Rightarrow> ?qs0
                    | Some m \<Rightarrow> if m < int (length ?qs0) then slice_to ?qs0 m else ?qs0)"
    by (simp_all only: Let_def)
  have a: "used = take N ?qs0 \<and> tot = N \<and> length used = N"
    if "max_questions = Some (int N)" and "N < length questions" for N
  proof -
    from that u len have "used = take N ?qs0" by (simp add: slice_to_def)
    moreover from this that(2) len have "length used = N" by simp
    ultimately show ?thesis using t by simp
  qed
  have b: "used = ?qs0 \<and> tot = length questions"
    if "max_questions = None \<or> (\<exists>m. max_questions = Some m \<and> int (length questions) \<le> m)"
  proof -
    from that u len have "used = ?qs0" by auto
    with t len show ?thesis by simp
  qed
  from a b q show ?thesis by blast
qed

theorem run_set_presents_first_max_questions_witness:
  "mset (rev [q_mc, q_open, q_sentence]) = mset [q_mc, q_open, q_sentence]
   \<and> (\<exists>score tot wrong w'.
         run_set rev [q_mc, q_open, q_sentence] ''Set 1'' True (Some 2)
           (world_in [''I  have lived HERE'', ''twice'']) = Inr ((score, tot, wrong, [q_sentence, q_open]), w')
         \<and> tot = 2
         \<and> question_texts (stdout w') = [''I / live / here'', ''How often?''])
   \<and> (\<exists>score tot wrong w'.
         run_set rev [q_mc, q_open, q_sentence] ''Set 1'' False None
           (world_in [''a'', ''three times'', ''no idea''])
           = Inr ((score, tot, wrong, [q_mc, q_open, q_sentence]), w')
         \<and> tot = 3)"
proof -
  let ?qs = "[q_mc, q_open, q_sentence]"
  let ?w1 = "world_in [''I  have lived HERE'', ''twice'']"
  let ?w2 = "world_in [''a'', ''three times'', ''no idea'']"
  have p: "mset (rev ?qs) = mset ?qs" by simp
  have "map_sum id (\<lambda>r. ()) (run_set rev ?qs ''Set 1'' True (Some 2) ?w1) = Inr ()"
    by code_simp
  then obtain s1 t1 wr1 u1 w1' where
    r1: "run_set rev ?qs ''Set 1'' True (Some 2) ?w1 = Inr ((s1, t1, wr1, u1), w1')"
    by (cases "run_set rev ?qs ''Set 1'' True (Some 2) ?w1") auto
  have "map_sum id (\<lambda>r. ()) (run_set rev ?qs ''Set 1'' False None ?w2) = Inr ()"
    by code_simp
  then obtain s2 t2 wr2 u2 w2' where
    r2: "run_set rev ?qs ''Set 1'' False None ?w2 = Inr ((s2, t2, wr2, u2), w2')"
    by (cases "run_set rev ?qs ''Set 1'' False None ?w2") auto
  from run_set_presents_first_max_questions [OF p r1]
  have "u1 = take 2 (rev ?qs) \<and> t1 = 2"
    and "question_texts (stdout w1') = question_texts (stdout ?w1) @ map shown_text u1"
    by simp_all
  then have a: "u1 = [q_sentence, q_open]" "t1 = 2"
    "question_texts (stdout w1') = [''I / live / here'', ''How often?'']"
    by (simp_all add: world_in_def shown_text_def open_text_def q_sentence_def q_open_def)
  from run_set_presents_first_max_questions [OF p r2]
  have b: "u2 = ?qs" "t2 = 3" by simp_all
  from p r1 r2 a b show ?thesis by blast
qed

text \<open>
  What holds of a retry: for the question list and the wrong indices that \<open>run_set\<close>
  or \<open>run_practice_section\<close> returns, every wrong index is a valid position in the
  list and the indices are strictly increasing, so that the list comprehension of
  \<open>retry_wrong\<close> yields the questions at those positions in their original relative
  order; and whenever \<open>retry_wrong\<close> returns, from whatever world it starts, it has
  presented exactly those questions in that order and has left the score file as it
  was.
\<close>

lemma retry_wrong_represents_wrong_questions:
  assumes "run_set random_shuffle questions title shuffle max_questions w
             = Inr ((score, tot, wrong, used), w1)
           \<or> run_practice_section section_title questions w
             = Inr ((score, tot, wrong, used), w1)"
  shows "(\<forall>i\<in>set wrong. i < length used)
         \<and> sorted_wrt (<) wrong
         \<and> pick used wrong = Inr (map (\<lambda>i. used ! i) wrong)
         \<and> (\<forall>retry_title w2 w3.
               retry_wrong used wrong retry_title w2 = Inr w3 \<longrightarrow>
                 question_texts (stdout w3) =
                   question_texts (stdout w2) @ map (\<lambda>i. shown_text (used ! i)) wrong
                 \<and> scores_file w3 = scores_file w2)"
proof -
  from assms have "tot = length used \<and> sorted_wrt (<) wrong \<and> (\<forall>j\<in>set wrong. j < tot)"
  proof
    assume "run_set random_shuffle questions title shuffle max_questions w
              = Inr ((score, tot, wrong, used), w1)"
    from run_set_result [OF this] show ?thesis by blast
  next
    assume "run_practice_section section_title questions w
              = Inr ((score, tot, wrong, used), w1)"
    from run_practice_section_result [OF this] show ?thesis by blast
  qed
  then have v: "\<forall>i\<in>set wrong. i < length used" and s: "sorted_wrt (<) wrong"
    by blast+
  from v have "pick used wrong = Inr (map (\<lambda>i. used ! i) wrong)" by (rule pick_valid)
  with v s retry_wrong_frame show ?thesis by blast
qed

lemma retry_wrong_represents_wrong_questions_example:
  "(\<exists>w1. run_set rev [q_mc, q_open, q_sentence] ''Set 1'' False None
            (world_in [''a'', ''three times'', ''no idea''])
          = Inr ((1, 3, [0, 2], [q_mc, q_open, q_sentence]), w1))
   \<and> (\<exists>w3. retry_wrong [q_mc, q_open, q_sentence] [0, 2] ''Retry''
              (world_with history_example\<lparr>stdin := [''b'', ''I have lived here'']\<rparr>) = Inr w3
          \<and> question_texts (stdout w3) = [''She ___ to school.'', ''I / live / here'']
          \<and> scores_file w3 = Json (Object (Some history_example)))"
proof -
  let ?qs = "[q_mc, q_open, q_sentence]"
  let ?w = "world_in [''a'', ''three times'', ''no idea'']"
  let ?w2 = "world_with history_example\<lparr>stdin := [''b'', ''I have lived here'']\<rparr>"
  have "map_sum id fst (run_set rev ?qs ''Set 1'' False None ?w) = Inr (1, 3, [0, 2], ?qs)"
    by code_simp
  then obtain w1 where
    r: "run_set rev ?qs ''Set 1'' False None ?w = Inr ((1, 3, [0, 2], ?qs), w1)"
    by (cases "run_set rev ?qs ''Set 1'' False None ?w") auto
  have "map_sum id (\<lambda>r. ()) (retry_wrong ?qs [0, 2] ''Retry'' ?w2) = Inr ()"
    by code_simp
  then obtain w3 where t: "retry_wrong ?qs [0, 2] ''Retry'' ?w2 = Inr w3"
    by (cases "retry_wrong ?qs [0, 2] ''Retry'' ?w2") auto
  from retry_wrong_represents_wrong_questions [OF disjI1 [OF r]] t
  have "question_texts (stdout w3) =
          question_texts (stdout ?w2) @ map (\<lambda>i. shown_text (?qs ! i)) [0, 2]
        \<and> scores_file w3 = scores_file ?w2"
    by blast
  then have "question_texts (stdout w3) = [''She ___ to school.'', ''I / live / here'']"
    and "scores_file w3 = Json (Object (Some history_example))"
    by (simp_all add: world_with_def shown_text_def open_text_def q_mc_def q_sentence_def)
  with r t show ?thesis by blast
qed

text \<open>
  A question without the key \<open>type\<close> makes \<open>retry_wrong\<close> raise at its first
  statement in the loop, \<open>q["type"]\<close>, wherever it stands among the questions to
  retry before any later one is presented.
\<close>

lemma retry_each_untyped: "q_type q = None \<Longrightarrow> retry_each (q # qs) i tot w = Inl KeyError"
  by (simp add: ask_question_def)

lemma retry_wrong_untyped:
  assumes "i < length qs" and "q_type (qs ! i) = None" and "\<forall>j\<in>set is. j < length qs"
  shows "retry_wrong qs (i # is) title w = Inl KeyError"
proof -
  have p: "pick qs (i # is) = Inr (qs ! i # map (\<lambda>j. qs ! j) is)"
    using assms(1) pick_valid [OF assms(3)] by simp
  have r: "retry_each (qs ! i # map (\<lambda>j. qs ! j) is) 0 n w' = Inl KeyError" for n w'
    by (rule retry_each_untyped [OF assms(2)])
  show ?thesis
    by (simp add: retry_wrong_def Let_def p r del: pick.simps retry_each.simps)
qed

text \<open>
  Claim C5. The claim is that retrying re-presents exactly the questions that the
  runner recorded as wrong. \<open>run_practice_section\<close> reads the type with
  \<open>q.get("type")\<close> and so runs a question that has no such key as an open question;
  \<open>retry_wrong\<close> reads \<open>q["type"]\<close>. Here a practice section of one question
  without the key is run and answered wrongly: the section returns score 0 of 1 with
  the wrong index 0, and the retry of that very result, in the world the section left,
  raises \<open>KeyError\<close> and presents nothing.
\<close>

theorem retry_wrong_raises_after_practice_section:
  "map_sum id fst (run_practice_section ''Gap fill'' [q_gap] (world_in [''went'', ''been'']))
     = Inr (0, 1, [0], [q_gap])
   \<and> (case run_practice_section ''Gap fill'' [q_gap] (world_in [''went'', ''been'']) of
         Inl e \<Rightarrow> Inl e
       | Inr ((score, tot, wrong_indices, questions_used), w1) \<Rightarrow>
           retry_wrong questions_used wrong_indices ''Gap fill (retry)'' w1)
       = Inl KeyError"
proof -
  have "map_sum id fst (run_practice_section ''Gap fill'' [q_gap] (world_in [''went'', ''been'']))
          = Inr (0, 1, [0], [q_gap])"
    by code_simp
  then obtain w1 where
    r: "run_practice_section ''Gap fill'' [q_gap] (world_in [''went'', ''been''])
          = Inr ((0, 1, [0], [q_gap]), w1)"
    by (cases "run_practice_section ''Gap fill'' [q_gap] (world_in [''went'', ''been''])") auto
  have "retry_wrong [q_gap] [0] ''Gap fill (retry)'' w1 = Inl KeyError"
    by (rule retry_wrong_untyped) (simp_all add: q_gap_def)
  with r show ?thesis by simp
qed

end
